theory Spec2Isabelle
  imports Main "HOL-Library.Word"
begin

section \<open>Bytes, buffers and observable events\<close>

type_synonym byte = "8 word"
type_synonym buffer = "byte list"

text \<open>What a stream does that its environment can observe: \<open>this.push(x)\<close>,
  \<open>this.push(null)\<close>, \<open>this.emit('error', ...)\<close>, \<open>this.emit('metadata', ...)\<close>,
  the invocation of a write-completion callback (named by the number of the write), and the
  call of the codec, with the bytes handed to it.\<close>

datatype 'a event =
    Push 'a
  | PushNull
  | EmitError string
  | EmitMetadata string
  | CallCb nat
  | CallCodec buffer

fun pushed :: "'a event list \<Rightarrow> 'a list" where
  "pushed [] = []"
| "pushed (Push x # es) = x # pushed es"
| "pushed (_ # es) = pushed es"

fun errors :: "'a event list \<Rightarrow> string list" where
  "errors [] = []"
| "errors (EmitError m # es) = m # errors es"
| "errors (_ # es) = errors es"

text \<open>The buffers handed to the codec, in the order of the calls.\<close>

fun codec_calls :: "'a event list \<Rightarrow> buffer list" where
  "codec_calls [] = []"
| "codec_calls (CallCodec b # es) = b # codec_calls es"
| "codec_calls (_ # es) = codec_calls es"

section \<open>Tap\<close>

text \<open>Modelled from the spec: \<open>utils.Tap\<close> is required from \<open>./utils\<close>, which is not
  part of the sources. A tap is a cursor over a buffer; a write past the end neither fails
  nor grows the buffer, it only moves \<open>pos\<close> beyond \<open>buf.length\<close>, and \<open>isValid\<close>
  tests \<open>pos \<le> buf.length\<close>. Bytes that fall inside the buffer are stored, the others
  are dropped.\<close>

record tap =
  buf :: buffer
  pos :: nat

definition isValid :: "tap \<Rightarrow> bool" where
  "isValid t = (pos t \<le> length (buf t))"

definition tap_write :: "tap \<Rightarrow> buffer \<Rightarrow> tap" where
  "tap_write t bs =
     \<lparr> buf = take (length (buf t)) (take (pos t) (buf t) @ bs @ drop (pos t + length bs) (buf t)),
       pos = pos t + length bs \<rparr>"

definition new_Buffer :: "nat \<Rightarrow> buffer" where
  "new_Buffer n = replicate n 0"

text \<open>\<open>copyBuffer(buf, pos, len)\<close>: a fresh buffer holding \<open>buf[pos .. pos + len)\<close>.\<close>

definition copyBuffer :: "buffer \<Rightarrow> nat \<Rightarrow> nat \<Rightarrow> buffer" where
  "copyBuffer b p len = take len (drop p b)"

section \<open>The \<open>long\<close> type\<close>

text \<open>Modelled from the spec: \<open>LONG_TYPE\<close> is built by \<open>./types\<close>, which is not part of
  the sources. A long is written as the variable-length encoding (seven bits per byte, least
  significant group first, high bit set on every byte but the last) of its zig-zag image.\<close>

definition zigzag :: "int \<Rightarrow> nat" where
  "zigzag n = (if 0 \<le> n then nat (2 * n) else nat (- 2 * n - 1))"

fun varint :: "nat \<Rightarrow> buffer" where
  "varint m = (if m < 128 then [of_nat m] else of_nat (m mod 128 + 128) # varint (m div 128))"

declare varint.simps [simp del]

definition long_toBuffer :: "int \<Rightarrow> buffer" where
  "long_toBuffer n = varint (zigzag n)"

section \<open>RawEncoder\<close>

text \<open>The value codec \<open>this._type._write\<close> belongs to \<open>./types\<close>, which is not part of
  the sources; it is a parameter \<open>enc\<close>: \<open>enc v = Some bs\<close> when the value is written as
  the bytes \<open>bs\<close>, \<open>Inl msg\<close> when \<open>_write\<close> throws the error \<open>msg\<close> (before it
  moves the tap).\<close>

type_synonym 'v encoder = "'v \<Rightarrow> string + buffer"

definition long_write :: "int encoder" where
  "long_write n = Inr (long_toBuffer n)"

record raw_encoder =
  re_tap :: tap

definition RawEncoder :: "nat \<Rightarrow> raw_encoder" where
  "RawEncoder batchSize = \<lparr> re_tap = \<lparr> buf = new_Buffer (if batchSize = 0 then 65536 else batchSize), pos = 0 \<rparr> \<rparr>"

text \<open>\<open>this._writeValue\<close>: the write, with a thrown error turned into an error event.\<close>

definition writeValue :: "'v encoder \<Rightarrow> tap \<Rightarrow> 'v \<Rightarrow> tap \<times> buffer event list" where
  "writeValue enc t v =
     (case enc v of
        Inl msg \<Rightarrow> (t, [EmitError msg])
      | Inr bs \<Rightarrow> (tap_write t bs, []))"

definition re_transform :: "'v encoder \<Rightarrow> raw_encoder \<Rightarrow> 'v \<Rightarrow> raw_encoder \<times> buffer event list" where
  "re_transform enc s v =
     (let t0 = re_tap s;
          b = buf t0;
          p = pos t0;
          (t1, ev1) = writeValue enc t0 v
      in if \<not> isValid t1 then
           (let ev2 = (if p \<noteq> 0 then [Push (copyBuffer (buf t1) 0 p)] else []);
                len = pos t1 - p;
                t2 = (if len > length b then t1\<lparr> buf := new_Buffer (2 * len) \<rparr> else t1);
                t3 = t2\<lparr> pos := 0 \<rparr>;
                (t4, ev3) = writeValue enc t3 v
            in (s\<lparr> re_tap := t4 \<rparr>, ev1 @ ev2 @ ev3 @ [CallCb 0]))
         else (s\<lparr> re_tap := t1 \<rparr>, ev1 @ [CallCb 0]))"

definition re_flush :: "raw_encoder \<Rightarrow> buffer event list" where
  "re_flush s =
     (let t = re_tap s; p = pos t
      in (if p \<noteq> 0 then [Push (take p (buf t))] else []) @ [CallCb 0])"

text \<open>A whole run: every value is written in turn, then the stream is flushed.\<close>

fun re_run :: "'v encoder \<Rightarrow> raw_encoder \<Rightarrow> 'v list \<Rightarrow> raw_encoder \<times> buffer event list" where
  "re_run enc s [] = (s, [])"
| "re_run enc s (v # vs) =
     (let (s1, ev1) = re_transform enc s v;
          (s2, ev2) = re_run enc s1 vs
      in (s2, ev1 @ ev2))"

definition raw_encode :: "'v encoder \<Rightarrow> nat \<Rightarrow> 'v list \<Rightarrow> buffer list" where
  "raw_encode enc k vs =
     (let (s, ev) = re_run enc (RawEncoder k) vs in pushed (ev @ re_flush s))"

text \<open>The bytes batched in the tap and not yet pushed.\<close>

definition re_pending :: "raw_encoder \<Rightarrow> buffer" where
  "re_pending s = take (pos (re_tap s)) (buf (re_tap s))"

section \<open>Readers\<close>

text \<open>The type's \<open>_read\<close> and \<open>_skip\<close> belong to \<open>./types\<close>, which is not part of the
  sources; they are parameters. Both work on a tap and only move its position: \<open>rd b p\<close> is
  the value read from the buffer \<open>b\<close> at position \<open>p\<close> and the position after the read,
  \<open>sk b p\<close> the position after the skip. Either position may lie beyond the end of the
  buffer, which leaves the tap invalid.\<close>

type_synonym 'v type_reader = "buffer \<Rightarrow> nat \<Rightarrow> 'v \<times> nat"
type_synonym type_skipper = "buffer \<Rightarrow> nat \<Rightarrow> nat"

text \<open>What a decoder pushes: a decoded value, or with \<open>decode = false\<close> the bytes of the
  record.\<close>

datatype 'v item = Decoded 'v | Undecoded buffer

type_synonym 'v reader = "tap \<Rightarrow> 'v item \<times> tap"

text \<open>\<open>buf.slice(start, end)\<close>, which clamps both ends to the buffer.\<close>

definition slice :: "buffer \<Rightarrow> nat \<Rightarrow> nat \<Rightarrow> buffer" where
  "slice b i j = take (j - i) (drop i b)"

definition createReader :: "bool \<Rightarrow> 'v type_reader \<Rightarrow> type_skipper \<Rightarrow> 'v reader" where
  "createReader decode rd sk =
     (if decode then (\<lambda>t. let (v, p) = rd (buf t) (pos t) in (Decoded v, t\<lparr> pos := p \<rparr>))
      else (\<lambda>t. let p0 = pos t; p = sk (buf t) p0 in (Undecoded (slice (buf t) p0 p), t\<lparr> pos := p \<rparr>)))"

section \<open>RawDecoder\<close>

record raw_decoder =
  rd_tap :: tap
  rd_writeCb :: "nat option"
  rd_needPush :: bool
  rd_finished :: bool

definition RawDecoder :: raw_decoder where
  "RawDecoder = \<lparr> rd_tap = \<lparr> buf = new_Buffer 0, pos = 0 \<rparr>, rd_writeCb = None,
                  rd_needPush = False, rd_finished = False \<rparr>"

definition rd_read :: "'v reader \<Rightarrow> raw_decoder \<Rightarrow> raw_decoder \<times> 'v item event list" where
  "rd_read readValue s0 =
     (let s = s0\<lparr> rd_needPush := False \<rparr>;
          t = rd_tap s;
          p = pos t;
          (val, t1) = readValue t
      in if isValid t1 then (s\<lparr> rd_tap := t1 \<rparr>, [Push val])
         else if \<not> rd_finished s then
           (s\<lparr> rd_tap := t1\<lparr> pos := p \<rparr>, rd_needPush := True \<rparr>,
            (case rd_writeCb s of Some cb \<Rightarrow> [CallCb cb] | None \<Rightarrow> []))
         else (s\<lparr> rd_tap := t1 \<rparr>, [PushNull]))"

definition rd_write :: "'v reader \<Rightarrow> raw_decoder \<Rightarrow> buffer \<Rightarrow> nat \<Rightarrow> raw_decoder \<times> 'v item event list" where
  "rd_write readValue s0 chunk cb =
     (let s = s0\<lparr> rd_writeCb := Some cb \<rparr>;
          t = rd_tap s;
          s1 = s\<lparr> rd_tap := \<lparr> buf = drop (pos t) (buf t) @ chunk, pos = 0 \<rparr> \<rparr>
      in if rd_needPush s1 then rd_read readValue (s1\<lparr> rd_needPush := False \<rparr>) else (s1, []))"

text \<open>The handler of \<open>'finish'\<close> installed by the constructor.\<close>

definition rd_finish :: "'v reader \<Rightarrow> raw_decoder \<Rightarrow> raw_decoder \<times> 'v item event list" where
  "rd_finish readValue s = rd_read readValue (s\<lparr> rd_finished := True \<rparr>)"

text \<open>The consumer of the readable side: as long as no read is stalled (\<open>_needPush\<close>) and the
  end of the stream has not been pushed, it calls \<open>_read\<close> again; \<open>n\<close> bounds the number of
  its calls.\<close>

fun rd_pump :: "'v reader \<Rightarrow> nat \<Rightarrow> raw_decoder \<Rightarrow> raw_decoder \<times> 'v item event list" where
  "rd_pump readValue 0 s = (s, [])"
| "rd_pump readValue (Suc n) s =
     (if rd_needPush s then (s, [])
      else (let (s1, ev1) = rd_read readValue s
            in if PushNull \<in> set ev1 then (s1, ev1)
               else (let (s2, ev2) = rd_pump readValue n s1 in (s2, ev1 @ ev2))))"

text \<open>The producer of the writable side: it writes the chunks in turn (chunk \<open>i\<close> with
  callback \<open>i\<close>), the consumer reading after each write until it stalls, which invokes
  the callback of the write; the producer goes on only once the callback of its last write
  has been invoked, and after the last chunk the stream finishes.\<close>

fun rd_feed :: "'v reader \<Rightarrow> nat \<Rightarrow> nat \<Rightarrow> raw_decoder \<Rightarrow> buffer list \<Rightarrow> raw_decoder \<times> 'v item event list" where
  "rd_feed readValue n i s [] =
     (let (s1, ev1) = rd_finish readValue s
      in if PushNull \<in> set ev1 then (s1, ev1)
         else (let (s2, ev2) = rd_pump readValue n s1 in (s2, ev1 @ ev2)))"
| "rd_feed readValue n i s (c # cs) =
     (let (s1, ev1) = rd_write readValue s c i;
          (s2, ev2) = rd_pump readValue n s1
      in if CallCb i \<in> set (ev1 @ ev2)
         then (let (s3, ev3) = rd_feed readValue n (Suc i) s2 cs in (s3, ev1 @ ev2 @ ev3))
         else (s2, ev1 @ ev2))"

text \<open>A whole run; with \<open>early\<close> the consumer calls \<open>_read\<close> before the first write.\<close>

definition rd_run :: "'v reader \<Rightarrow> nat \<Rightarrow> bool \<Rightarrow> buffer list \<Rightarrow> 'v item event list" where
  "rd_run readValue n early chunks =
     (let (s0, ev0) = (if early then rd_read readValue RawDecoder else (RawDecoder, []))
      in ev0 @ snd (rd_feed readValue n 0 s0 chunks))"





definition empty_read :: "unit type_reader" where
  "empty_read b p = ((), p)"

definition empty_skip :: type_skipper where
  "empty_skip b p = p"


section \<open>Reading longs\<close>

text \<open>Modelled from the spec: the reading side of \<open>long\<close> (\<open>./types\<close> and the tap's
  \<open>readLong\<close> in \<open>./utils\<close> are not part of the sources). A byte beyond the end of the
  buffer reads as \<open>undefined\<close>, which has no bit set: the read ends there, with the position
  past the end.\<close>

definition byte_at :: "buffer \<Rightarrow> nat \<Rightarrow> byte" where
  "byte_at b p = (if p < length b then b ! p else 0)"

function read_varint :: "buffer \<Rightarrow> nat \<Rightarrow> nat \<times> nat" where
  "read_varint b p =
     (let x = unat (byte_at b p)
      in if x < 128 then (x, p + 1)
         else (let (m, q) = read_varint b (p + 1) in (x - 128 + 128 * m, q)))"
  by pat_completeness auto
termination
  by (relation "measure (\<lambda>(b, p). length b - p)") (auto simp: byte_at_def split: if_splits)

declare read_varint.simps [simp del]

definition unzigzag :: "nat \<Rightarrow> int" where
  "unzigzag m = (if even m then int (m div 2) else - int ((m + 1) div 2))"

definition long_read :: "int type_reader" where
  "long_read b p = (let (m, q) = read_varint b p in (unzigzag m, q))"

definition long_skip :: type_skipper where
  "long_skip b p = snd (read_varint b p)"


section \<open>The container's wire format\<close>

text \<open>Modelled from the spec: \<open>HEADER_TYPE\<close> and \<open>BLOCK_TYPE\<close> are built by \<open>./types\<close>,
  which is not part of the sources. A header is the record \<open>{magic: 4 bytes, meta:
  map<string, bytes>, sync: 16 bytes}\<close>, a block the record \<open>{count: long, data: bytes,
  sync: 16 bytes}\<close>. Bytes and strings are length-prefixed by a long; a map is a sequence of
  blocks, each a count followed by that many key-value pairs (a negative count is followed
  by the byte size of the block), ended by the count zero. A read that runs past the end of
  the buffer moves the position past the end and leaves the tap invalid. A negative length
  is read as zero.\<close>

definition bytes_of :: "string \<Rightarrow> buffer" where
  "bytes_of s = map (\<lambda>c. of_nat (of_char c)) s"

definition string_of :: "buffer \<Rightarrow> string" where
  "string_of b = map (\<lambda>x. char_of (unat x)) b"

definition MAGIC_BYTES :: buffer where
  "MAGIC_BYTES = bytes_of [CHR ''O'', CHR ''b'', CHR ''j'', char_of (1::nat)]"

definition write_bytes :: "buffer \<Rightarrow> buffer" where
  "write_bytes b = long_toBuffer (int (length b)) @ b"

definition read_fixed :: "nat \<Rightarrow> buffer \<Rightarrow> nat \<Rightarrow> buffer \<times> nat" where
  "read_fixed n b p = (slice b p (p + n), p + n)"

definition read_bytes :: "buffer \<Rightarrow> nat \<Rightarrow> buffer \<times> nat" where
  "read_bytes b p = (let (n, q) = long_read b p in read_fixed (nat n) b q)"

fun read_pairs :: "nat \<Rightarrow> buffer \<Rightarrow> nat \<Rightarrow> (string \<times> buffer) list \<times> nat" where
  "read_pairs 0 b p = ([], p)"
| "read_pairs (Suc n) b p =
     (let (k, p1) = read_bytes b p;
          (v, p2) = read_bytes b p1;
          (kvs, p3) = read_pairs n b p2
      in ((string_of k, v) # kvs, p3))"

text \<open>\<open>readArraySize\<close>: the count of the next block of a map.\<close>

definition read_size :: "buffer \<Rightarrow> nat \<Rightarrow> nat \<times> nat" where
  "read_size b p =
     (let (n, p1) = long_read b p
      in if n < 0 then (nat (- n), snd (long_read b p1)) else (nat n, p1))"

function read_map :: "buffer \<Rightarrow> nat \<Rightarrow> (string \<times> buffer) list \<times> nat" where
  "read_map b p =
     (let (n, p1) = read_size b p
      in if n = 0 then ([], p1)
         else (let (kvs, p2) = read_pairs n b p1;
                   (rest, p3) = read_map b p2
               in (kvs @ rest, p3)))"
  by pat_completeness auto
termination
proof (relation "measure (\<lambda>(b, p). length b - p)")
  show "wf (measure (\<lambda>(b, p). length b - p))" by simp
next
  fix b :: buffer and p n p1 p2 :: nat and x xa and kvs :: "(string \<times> buffer) list"
  assume a: "x = read_size b p" "(n, p1) = x" "n \<noteq> 0" "xa = read_pairs n b p1" "(kvs, p2) = xa"
  have vgt: "q < snd (read_varint c q)" for c q
  proof (induction c q rule: read_varint.induct)
    case (1 c q)
    show ?case
    proof (cases "unat (byte_at c q) < 128")
      case True
      then show ?thesis by (simp add: read_varint.simps[of c q])
    next
      case False
      with 1 have "q + 1 < snd (read_varint c (q + 1))" by simp
      then show ?thesis using False by (simp add: read_varint.simps[of c q] split_beta)
    qed
  qed
  have lgt: "q < snd (long_read c q)" for c q
    using vgt[of q c] by (simp add: long_read_def split_beta)
  have bgt: "q < snd (read_bytes c q)" for c q
    using lgt[of q c] by (simp add: read_bytes_def read_fixed_def split_beta)
  have pge: "q \<le> snd (read_pairs m c q)" for m c q
  proof (induction m arbitrary: q)
    case 0
    then show ?case by simp
  next
    case (Suc m)
    from bgt[of q c] bgt[of "snd (read_bytes c q)" c] Suc[of "snd (read_bytes c (snd (read_bytes c q)))"]
    show ?case by (simp add: split_beta)
  qed
  have "p < p1" using a(1,2) lgt[of p b] lgt[of "snd (long_read b p)" b]
    by (auto simp: read_size_def split_beta split: if_splits)
  moreover have "p1 \<le> p2" using a(4,5) pge[of p1 n b] by (metis snd_conv)
  moreover have "p < length b"
  proof (rule ccontr)
    assume "\<not> p < length b"
    then have "read_varint b p = (0, p + 1)" by (simp add: read_varint.simps[of b p] byte_at_def)
    then have "fst (read_size b p) = 0" by (simp add: read_size_def long_read_def unzigzag_def)
    with a(1,2,3) show False by (metis fst_conv)
  qed
  ultimately show "((b, p2), (b, p)) \<in> measure (\<lambda>(b, p). length b - p)" by simp
qed

declare read_map.simps [simp del]

record header =
  h_magic :: buffer
  h_meta :: "(string \<times> buffer) list"
  h_sync :: buffer

text \<open>\<open>header.meta[key]\<close>: the map is read into an object, where a later entry for a key
  replaces an earlier one.\<close>

definition meta_lookup :: "(string \<times> buffer) list \<Rightarrow> string \<Rightarrow> buffer option" where
  "meta_lookup m k = map_of (rev m) k"

definition header_read :: "header type_reader" where
  "header_read b p =
     (let (mg, p1) = read_fixed 4 b p;
          (mt, p2) = read_map b p1;
          (sy, p3) = read_fixed 16 b p2
      in (\<lparr> h_magic = mg, h_meta = mt, h_sync = sy \<rparr>, p3))"

definition write_map :: "(string \<times> buffer) list \<Rightarrow> buffer" where
  "write_map m =
     (if m = [] then [] else long_toBuffer (int (length m))
         @ concat (map (\<lambda>(k, v). write_bytes (bytes_of k) @ write_bytes v) m))
     @ long_toBuffer 0"

definition header_toBuffer :: "header \<Rightarrow> buffer" where
  "header_toBuffer h = h_magic h @ write_map (h_meta h) @ h_sync h"

record block =
  b_count :: int
  b_data :: buffer
  b_sync :: buffer

definition block_read :: "block type_reader" where
  "block_read b p =
     (let (c, p1) = long_read b p;
          (d, p2) = read_bytes b p1;
          (sy, p3) = read_fixed 16 b p2
      in (\<lparr> b_count = c, b_data = d, b_sync = sy \<rparr>, p3))"

definition tryReadBlock :: "tap \<Rightarrow> block option \<times> tap" where
  "tryReadBlock t =
     (let p = pos t;
          (blk, p1) = block_read (buf t) p;
          t1 = t\<lparr> pos := p1 \<rparr>
      in if \<not> isValid t1 then (None, t1\<lparr> pos := p \<rparr>) else (Some blk, t1))"

section \<open>Numbers, codecs and the ordered queue\<close>

text \<open>The values a counter field of a stream can hold: \<open>undefined\<close> (the field was never
  assigned), \<open>NaN\<close>, or a number. \<open>x++\<close> yields the old value converted to a number and
  stores that number plus one; \<open>undefined\<close> converts to \<open>NaN\<close>. Comparisons with \<open>NaN\<close>
  are false.\<close>

datatype jsval = Undefined | NaN | Num nat

fun post_incr :: "jsval \<Rightarrow> jsval \<times> jsval" where
  "post_incr (Num n) = (Num n, Num (n + 1))"
| "post_incr _ = (NaN, NaN)"

fun js_less :: "jsval \<Rightarrow> jsval \<Rightarrow> bool" where
  "js_less (Num a) (Num b) = (a < b)"
| "js_less _ _ = False"

text \<open>A codec \<open>(buf, cb)\<close>: what it makes of the bytes (an error or the transformed bytes) and
  whether it calls \<open>cb\<close> before it returns (as the \<open>null\<close> codec does) or in a later turn.\<close>

record codec =
  c_apply :: "buffer \<Rightarrow> string + buffer"
  c_sync :: bool

type_synonym registry = "string \<Rightarrow> codec option"

definition null_codec :: codec where
  "null_codec = \<lparr> c_apply = Inr, c_sync = True \<rparr>"

text \<open>The registry is a plain object, and \<open>codecs[name]\<close> also finds what the object
  inherits from \<open>Object.prototype\<close>: under these names the lookup yields a value that is
  not \<open>undefined\<close>, and that is no codec. Called as one it never calls back (\<open>__proto__\<close>
  is no function at all and the call throws, which also leaves the callback uncalled).\<close>

definition inherited_names :: "string list" where
  "inherited_names =
     [''constructor'', ''toString'', ''toLocaleString'', ''valueOf'', ''hasOwnProperty'',
      ''isPrototypeOf'', ''propertyIsEnumerable'', ''__proto__'', ''__defineGetter__'',
      ''__defineSetter__'', ''__lookupGetter__'', ''__lookupSetter__'']"

definition inherited_property :: codec where
  "inherited_property = \<lparr> c_apply = (\<lambda>b. Inl ''never called back''), c_sync = False \<rparr>"

text \<open>\<open>getDefaultCodecs\<close>, of the encoder with \<open>zlib.deflateRaw\<close> and of the decoder with
  \<open>zlib.inflateRaw\<close> for \<open>z\<close>.\<close>

definition getDefaultCodecs :: "(buffer \<Rightarrow> string + buffer) \<Rightarrow> registry" where
  "getDefaultCodecs z =
     (\<lambda>name. if name = ''null'' then Some null_codec
             else if name = ''deflate'' then Some \<lparr> c_apply = z, c_sync = False \<rparr>
             else if name \<in> set inherited_names then Some inherited_property
             else None)"

text \<open>\<open>BlockData(index, buf, cb, count)\<close>; the callback is named by the number of the write
  it belongs to, and is absent (\<open>undefined\<close>) for the block flushed on \<open>'finish'\<close>.\<close>

record blockdata =
  bd_index :: jsval
  bd_buf :: buffer
  bd_cb :: "nat option"
  bd_count :: nat

text \<open>Modelled from the spec: \<open>utils.OrderedQueue\<close> is not part of the sources. A min-heap
  on \<open>index\<close> with a counter of the next index to emit: \<open>push\<close> inserts; \<open>pop\<close> returns
  nothing if the heap is empty or the index of its top is greater than the counter, else it
  removes and returns the top and increments the counter. Where the indices are the numbers
  0, 1, 2, ... a decoder assigns, the top returned is the item whose index equals the counter.
  An index that is \<open>NaN\<close> is not greater than the counter (a comparison with \<open>NaN\<close> is
  false), so such a top is returned. The heap is kept as the list of its items in the order
  the heap would yield them; an item is inserted before the first item with a greater index,
  so items with \<open>NaN\<close> for index stay in the order of their insertion.\<close>

record ordered_queue =
  oq_index :: nat
  oq_items :: "blockdata list"

definition OrderedQueue :: ordered_queue where
  "OrderedQueue = \<lparr> oq_index = 0, oq_items = [] \<rparr>"

fun oq_insert :: "blockdata \<Rightarrow> blockdata list \<Rightarrow> blockdata list" where
  "oq_insert x [] = [x]"
| "oq_insert x (y # ys) = (if js_less (bd_index x) (bd_index y) then x # y # ys else y # oq_insert x ys)"

definition oq_push :: "ordered_queue \<Rightarrow> blockdata \<Rightarrow> ordered_queue" where
  "oq_push q x = q\<lparr> oq_items := oq_insert x (oq_items q) \<rparr>"

definition oq_pop :: "ordered_queue \<Rightarrow> blockdata option \<times> ordered_queue" where
  "oq_pop q =
     (case oq_items q of
        [] \<Rightarrow> (None, q)
      | x # xs \<Rightarrow>
          if js_less (Num (oq_index q)) (bd_index x) then (None, q)
          else (Some x, \<lparr> oq_index = oq_index q + 1, oq_items = xs \<rparr>))"

section \<open>BlockEncoder\<close>

text \<open>The closure returned by \<open>_createBlockCallback\<close>: the index and the count it captured
  and the write callback it was given.\<close>

record block_cb =
  bc_index :: jsval
  bc_count :: nat
  bc_cb :: "nat option"

text \<open>The state of a BlockEncoder. \<open>be_started\<close> says that \<open>this._write\<close> has been replaced
  by \<open>_writeChunk\<close>; \<open>be_jobs\<close> holds the compressions handed to a codec that has not called
  back yet, each the closure to call and the bytes to compress. Where the code would call
  something that is not a function (a callback or codec that is \<open>undefined\<close>), which no run
  from the constructors reaches, the model emits the \<open>TypeError\<close> as an error event.\<close>

record block_encoder =
  be_schema :: string
  be_blockSize :: nat
  be_tap :: tap
  be_codecs :: registry
  be_codec :: string
  be_compress :: "codec option"
  be_omitHeader :: bool
  be_blockCount :: nat
  be_syncMarker :: buffer
  be_queue :: ordered_queue
  be_pending :: nat
  be_finished :: bool
  be_needPush :: bool
  be_index :: jsval
  be_started :: bool
  be_jobs :: "(block_cb \<times> buffer) list"

text \<open>The constructor: \<open>schema\<close> is the schema's JSON text, \<open>codecs\<close> the registry in
  force (\<open>opts.codecs\<close> or the default one). It assigns every field but \<open>_index\<close>.\<close>

definition BlockEncoder :: "string \<Rightarrow> nat \<Rightarrow> registry \<Rightarrow> string \<Rightarrow> bool \<Rightarrow> buffer \<Rightarrow> block_encoder" where
  "BlockEncoder schema blockSize codecs codecName omitHeader syncMarker =
     (let bs = (if blockSize = 0 then 65536 else blockSize)
      in \<lparr> be_schema = schema, be_blockSize = bs,
           be_tap = \<lparr> buf = new_Buffer bs, pos = 0 \<rparr>,
           be_codecs = codecs,
           be_codec = (if codecName = [] then ''null'' else codecName),
           be_compress = None, be_omitHeader = omitHeader, be_blockCount = 0,
           be_syncMarker = syncMarker, be_queue = OrderedQueue, be_pending = 0,
           be_finished = False, be_needPush = False, be_index = Undefined,
           be_started = False, be_jobs = [] \<rparr>)"

definition be_read :: "block_encoder \<Rightarrow> block_encoder \<times> buffer event list" where
  "be_read s =
     (let (data, q) = oq_pop (be_queue s);
          s1 = s\<lparr> be_queue := q \<rparr>
      in case data of
           None \<Rightarrow>
             if be_finished s1 \<and> be_pending s1 = 0 then (s1, [PushNull])
             else (s1\<lparr> be_needPush := True \<rparr>, [])
         | Some d \<Rightarrow>
             (s1, [Push (long_toBuffer (int (bd_count d))),
                   Push (long_toBuffer (int (length (bd_buf d)))),
                   Push (bd_buf d),
                   Push (be_syncMarker s1)]
                  @ (if \<not> be_finished s1
                     then (case bd_cb d of Some cb \<Rightarrow> [CallCb cb]
                           | None \<Rightarrow> [EmitError ''TypeError: data.cb is not a function''])
                     else [])))"

definition be_createBlockCallback :: "block_encoder \<Rightarrow> nat option \<Rightarrow> block_cb \<times> block_encoder" where
  "be_createBlockCallback s cb =
     (let (index, i') = post_incr (be_index s);
          count = be_blockCount s
      in (\<lparr> bc_index = index, bc_count = count, bc_cb = cb \<rparr>,
          s\<lparr> be_index := i', be_pending := be_pending s + 1 \<rparr>))"

text \<open>The function \<open>_createBlockCallback\<close> returns, called by the codec with \<open>(err, data)\<close>.\<close>

definition be_blockCallback :: "block_encoder \<Rightarrow> block_cb \<Rightarrow> string + buffer \<Rightarrow> block_encoder \<times> buffer event list" where
  "be_blockCallback s c res =
     (case res of
        Inl err \<Rightarrow> (s, [EmitError err])
      | Inr data \<Rightarrow>
          (let s1 = s\<lparr> be_pending := be_pending s - 1 \<rparr>;
               s2 = s1\<lparr> be_queue := oq_push (be_queue s1)
                        \<lparr> bd_index = bc_index c, bd_buf = data, bd_cb = bc_cb c, bd_count = bc_count c \<rparr> \<rparr>
           in if be_needPush s2 then be_read (s2\<lparr> be_needPush := False \<rparr>) else (s2, [])))"

text \<open>\<open>this._compress(buf, callback)\<close>: a synchronous codec calls back at once, any other
  is recorded as a job in flight.\<close>

definition be_call_compress :: "block_encoder \<Rightarrow> buffer \<Rightarrow> block_cb \<Rightarrow> block_encoder \<times> buffer event list" where
  "be_call_compress s b c =
     (case be_compress s of
        None \<Rightarrow> (s, [EmitError ''TypeError: this._compress is not a function''])
      | Some cd \<Rightarrow>
          if c_sync cd then (let (s1, ev) = be_blockCallback s c (c_apply cd b) in (s1, CallCodec b # ev))
          else (s\<lparr> be_jobs := be_jobs s @ [(c, b)] \<rparr>, [CallCodec b]))"

text \<open>\<open>_flushChunk(pos, cb)\<close>; \<open>pos\<close> is \<open>None\<close> when the argument is absent, and
  \<open>pos || tap.pos\<close> also replaces a zero.\<close>

definition be_flushChunk :: "block_encoder \<Rightarrow> nat option \<Rightarrow> nat option \<Rightarrow> block_encoder \<times> buffer event list" where
  "be_flushChunk s p0 cb =
     (let t = be_tap s;
          p = (case p0 of None \<Rightarrow> pos t | Some n \<Rightarrow> if n = 0 then pos t else n);
          (c, s1) = be_createBlockCallback s cb;
          (s2, ev) = be_call_compress s1 (slice (buf t) 0 p) c
      in (s2\<lparr> be_blockCount := 0 \<rparr>, ev))"

definition be_writeChunk :: "'v encoder \<Rightarrow> block_encoder \<Rightarrow> 'v \<Rightarrow> nat \<Rightarrow> block_encoder \<times> buffer event list" where
  "be_writeChunk enc s v cb =
     (let t0 = be_tap s;
          p = pos t0;
          (t1, ev1) = writeValue enc t0 v;
          s1 = s\<lparr> be_tap := t1 \<rparr>
      in if \<not> isValid t1 then
           (let (s2, ev2) = (if p \<noteq> 0 then be_flushChunk s1 (Some p) (Some cb) else (s1, []));
                flushing = (p \<noteq> 0);
                len = pos t1 - p;
                s3 = (if len > be_blockSize s2 then s2\<lparr> be_blockSize := len * 2 \<rparr> else s2);
                t3 = \<lparr> buf = new_Buffer (be_blockSize s3), pos = 0 \<rparr>;
                (t4, ev3) = writeValue enc t3 v;
                s4 = s3\<lparr> be_tap := t4, be_blockCount := be_blockCount s3 + 1 \<rparr>
            in (s4, ev1 @ ev2 @ ev3 @ (if \<not> flushing then [CallCb cb] else [])))
         else (s1\<lparr> be_blockCount := be_blockCount s1 + 1 \<rparr>, ev1 @ [CallCb cb]))"

definition be_write :: "'v encoder \<Rightarrow> block_encoder \<Rightarrow> 'v \<Rightarrow> nat \<Rightarrow> block_encoder \<times> buffer event list" where
  "be_write enc s v cb =
     (if be_started s then be_writeChunk enc s v cb
      else (let s1 = s\<lparr> be_compress := be_codecs s (be_codec s) \<rparr>
            in case be_compress s1 of
                 None \<Rightarrow> (s1, [EmitError (''unsupported codec: '' @ be_codec s1)])
               | Some _ \<Rightarrow>
                   (let ev1 = (if \<not> be_omitHeader s1
                               then [Push (header_toBuffer
                                       \<lparr> h_magic = MAGIC_BYTES,
                                          h_meta = [(''avro.schema'', bytes_of (be_schema s1)),
                                                    (''avro.codec'', bytes_of (be_codec s1))],
                                          h_sync = be_syncMarker s1 \<rparr>)]
                               else []);
                        (s2, ev2) = be_writeChunk enc (s1\<lparr> be_started := True \<rparr>) v cb
                    in (s2, ev1 @ ev2))))"

text \<open>The handler of \<open>'finish'\<close> installed by the constructor.\<close>

definition be_finish :: "block_encoder \<Rightarrow> block_encoder \<times> buffer event list" where
  "be_finish s0 =
     (let s = s0\<lparr> be_finished := True \<rparr>
      in if be_blockCount s \<noteq> 0 then be_flushChunk s None None else (s, []))"

text \<open>An asynchronous codec calls back for the job at position \<open>j\<close> of those in flight.\<close>

definition be_complete :: "block_encoder \<Rightarrow> nat \<Rightarrow> block_encoder \<times> buffer event list" where
  "be_complete s j =
     (if j < length (be_jobs s) then
        (let (c, b) = be_jobs s ! j;
             s1 = s\<lparr> be_jobs := take j (be_jobs s) @ drop (Suc j) (be_jobs s) \<rparr>
         in case be_compress s1 of
              None \<Rightarrow> (s1, [])
            | Some cd \<Rightarrow> be_blockCallback s1 c (c_apply cd b))
      else (s, []))"

text \<open>What happens to an encoder: a value is written (with the number of its callback), the
  consumer reads, the writable side finishes, a compression in flight completes.\<close>

datatype 'v be_action = Write 'v nat | Read | Finish | Complete nat

fun be_step :: "'v encoder \<Rightarrow> block_encoder \<Rightarrow> 'v be_action \<Rightarrow> block_encoder \<times> buffer event list" where
  "be_step enc s (Write v cb) = be_write enc s v cb"
| "be_step enc s Read = be_read s"
| "be_step enc s Finish = be_finish s"
| "be_step enc s (Complete j) = be_complete s j"

fun be_run :: "'v encoder \<Rightarrow> block_encoder \<Rightarrow> 'v be_action list \<Rightarrow> block_encoder \<times> buffer event list" where
  "be_run enc s [] = (s, [])"
| "be_run enc s (a # as) =
     (let (s1, ev1) = be_step enc s a;
          (s2, ev2) = be_run enc s1 as
      in (s2, ev1 @ ev2))"

text \<open>An encoder of longs with block size 4, the default codecs, codec \<open>null\<close>, no header
  and a sync marker of sixteen zero bytes.\<close>

definition be_example :: block_encoder where
  "be_example = BlockEncoder ''\"long\"'' 4 (getDefaultCodecs Inr) ''null'' True (replicate 16 0)"

text \<open>No block of the encoder carries a number for index: \<open>_index\<close> is \<open>undefined\<close> or
  \<open>NaN\<close>, and so is the index of every block queued or being compressed.\<close>

definition be_unindexed :: "block_encoder \<Rightarrow> bool" where
  "be_unindexed s \<longleftrightarrow>
     (be_index s = Undefined \<or> be_index s = NaN)
     \<and> (\<forall>x\<in>set (oq_items (be_queue s)). bd_index x = NaN)
     \<and> (\<forall>j\<in>set (be_jobs s). bc_index (fst j) = NaN)"

section \<open>BlockDecoder\<close>

text \<open>\<open>JSON.parse\<close> followed by \<open>types.createType\<close> is a parameter (\<open>./types\<close> is not part of
  the sources): from the schema text, the thrown error or the type's reader and skipper.\<close>

type_synonym 'v type_parser = "string \<Rightarrow> string + ('v type_reader \<times> type_skipper)"

text \<open>The state of a BlockDecoder. \<open>bk_started\<close> says that \<open>this._write\<close> has been replaced
  by \<open>_writeChunk\<close>. \<open>bk_nBlocks\<close> holds the variable \<open>nBlocks\<close> of every call of
  \<open>_writeChunk\<close>, under the number of the write callback the call was given (its \<open>chunkCb\<close>
  is named by the same number); \<open>bk_jobs\<close> holds the decompressions handed to a codec that
  has not called back yet.\<close>

record 'v block_decoder =
  bk_type :: "('v type_reader \<times> type_skipper) option"
  bk_codecs :: registry
  bk_tap :: tap
  bk_blockTap :: tap
  bk_syncMarker :: "buffer option"
  bk_decode :: bool
  bk_queue :: ordered_queue
  bk_decompress :: "codec option"
  bk_index :: jsval
  bk_needPush :: bool
  bk_finished :: bool
  bk_started :: bool
  bk_nBlocks :: "nat \<Rightarrow> int"
  bk_jobs :: "(block_cb \<times> buffer) list"

definition BlockDecoder :: "bool \<Rightarrow> registry \<Rightarrow> 'v block_decoder" where
  "BlockDecoder decode codecs =
     \<lparr> bk_type = None, bk_codecs = codecs,
       bk_tap = \<lparr> buf = new_Buffer 0, pos = 0 \<rparr>,
       bk_blockTap = \<lparr> buf = new_Buffer 0, pos = 0 \<rparr>,
       bk_syncMarker = None, bk_decode = decode, bk_queue = OrderedQueue,
       bk_decompress = None, bk_index = Num 0, bk_needPush = False, bk_finished = False,
       bk_started = False, bk_nBlocks = (\<lambda>_. 0), bk_jobs = [] \<rparr>"

text \<open>\<open>chunkCb\<close> of the call of \<open>_writeChunk\<close> for write \<open>c\<close>.\<close>

definition bk_chunkCb :: "'v block_decoder \<Rightarrow> nat \<Rightarrow> 'v block_decoder \<times> 'v item event list" where
  "bk_chunkCb s c =
     (let n = bk_nBlocks s c - 1;
          s1 = s\<lparr> bk_nBlocks := (bk_nBlocks s)(c := n) \<rparr>
      in (s1, if n = 0 then [CallCb c] else []))"

definition bk_read :: "'v block_decoder \<Rightarrow> 'v block_decoder \<times> 'v item event list" where
  "bk_read s0 =
     (let s = s0\<lparr> bk_needPush := False \<rparr>;
          t = bk_blockTap s;
          (go, s2, ev) =
            (if pos t \<ge> length (buf t) then
               (let (data, q) = oq_pop (bk_queue s);
                    s1 = s\<lparr> bk_queue := q \<rparr>
                in case data of
                     None \<Rightarrow>
                       if bk_finished s1 then (False, s1, [PushNull])
                       else (False, s1\<lparr> bk_needPush := True \<rparr>, [])
                   | Some d \<Rightarrow>
                       (let (s2, ev) = (case bd_cb d of Some c \<Rightarrow> bk_chunkCb s1 c
                                        | None \<Rightarrow> (s1, [EmitError ''TypeError: data.cb is not a function'']))
                        in (True, s2\<lparr> bk_blockTap := \<lparr> buf = bd_buf d, pos = 0 \<rparr> \<rparr>, ev)))
             else (True, s, []))
      in if \<not> go then (s2, ev)
         else (case bk_type s2 of
                 None \<Rightarrow> (s2, ev @ [EmitError ''TypeError: this._readValue is not a function''])
               | Some (rd, sk) \<Rightarrow>
                   (let (val, t1) = createReader (bk_decode s2) rd sk (bk_blockTap s2)
                    in (s2\<lparr> bk_blockTap := t1 \<rparr>, ev @ [Push val]))))"

definition bk_createBlockCallback :: "'v block_decoder \<Rightarrow> nat \<Rightarrow> block_cb \<times> 'v block_decoder" where
  "bk_createBlockCallback s cb =
     (let (index, i') = post_incr (bk_index s)
      in (\<lparr> bc_index = index, bc_count = 0, bc_cb = Some cb \<rparr>, s\<lparr> bk_index := i' \<rparr>))"

text \<open>The function \<open>_createBlockCallback\<close> returns, called by the codec with \<open>(err, data)\<close>.\<close>

definition bk_blockCallback :: "'v block_decoder \<Rightarrow> block_cb \<Rightarrow> string + buffer \<Rightarrow> 'v block_decoder \<times> 'v item event list" where
  "bk_blockCallback s c res =
     (case res of
        Inl err \<Rightarrow>
          (let (s1, ev) = (case bc_cb c of Some cb \<Rightarrow> bk_chunkCb s cb | None \<Rightarrow> (s, []))
           in (s1, EmitError err # ev))
      | Inr data \<Rightarrow>
          (let s1 = s\<lparr> bk_queue := oq_push (bk_queue s)
                        \<lparr> bd_index = bc_index c, bd_buf = data, bd_cb = bc_cb c, bd_count = 0 \<rparr> \<rparr>
           in if bk_needPush s1 then bk_read s1 else (s1, [])))"

definition bk_call_decompress :: "'v block_decoder \<Rightarrow> buffer \<Rightarrow> block_cb \<Rightarrow> 'v block_decoder \<times> 'v item event list" where
  "bk_call_decompress s b c =
     (case bk_decompress s of
        None \<Rightarrow> (s, [EmitError ''TypeError: this._decompress is not a function''])
      | Some cd \<Rightarrow>
          if c_sync cd then (let (s1, ev) = bk_blockCallback s c (c_apply cd b) in (s1, CallCodec b # ev))
          else (s\<lparr> bk_jobs := bk_jobs s @ [(c, b)] \<rparr>, [CallCodec b]))"

text \<open>The loop of \<open>_writeChunk\<close> over the blocks that can be read from the tap \<open>t\<close> (the
  variable \<open>tap\<close> of the call, stored in the state when the loop is left); the result says
  whether the loop ran to its end, or was left by the \<open>return\<close> after a wrong sync marker.\<close>

function bk_loop :: "'v block_decoder \<Rightarrow> tap \<Rightarrow> nat \<Rightarrow> 'v block_decoder \<times> 'v item event list \<times> bool" where
  "bk_loop s t cb =
     (case tryReadBlock t of
        (None, t1) \<Rightarrow> (s\<lparr> bk_tap := t1 \<rparr>, [], True)
      | (Some blk, t1) \<Rightarrow>
          if bk_syncMarker s \<noteq> Some (b_sync blk)
          then (s\<lparr> bk_tap := t1 \<rparr>, [EmitError ''invalid sync marker''], False)
          else (let s1 = s\<lparr> bk_nBlocks := (bk_nBlocks s)(cb := bk_nBlocks s cb + 1) \<rparr>;
                    (c, s2) = bk_createBlockCallback s1 cb;
                    (s3, ev) = bk_call_decompress s2 (b_data blk) c;
                    (s4, ev', ok) = bk_loop s3 t1 cb
                in (s4, ev @ ev', ok)))"
  by pat_completeness auto
termination
  apply (relation "measure (\<lambda>(s, t, cb). length (buf t) - pos t)")
   apply simp
  subgoal premises a for s t cb x t1 blk
  proof -
    have vgt: "q < snd (read_varint c q)" for c q
    proof (induction c q rule: read_varint.induct)
      case (1 c q)
      show ?case
      proof (cases "unat (byte_at c q) < 128")
        case True
        then show ?thesis by (simp add: read_varint.simps[of c q])
      next
        case False
        with 1 have "q + 1 < snd (read_varint c (q + 1))" by simp
        then show ?thesis using False by (simp add: read_varint.simps[of c q] split_beta)
      qed
    qed
    have "pos t < snd (block_read (buf t) (pos t))"
      using vgt[of "pos t" "buf t"] vgt[of "snd (read_varint (buf t) (pos t))" "buf t"]
      by (simp add: block_read_def long_read_def read_bytes_def read_fixed_def split_beta)
    moreover have "pos t1 = snd (block_read (buf t) (pos t)) \<and> buf t1 = buf t \<and> pos t1 \<le> length (buf t1)"
      using a(1)[symmetric] a(2) by (auto simp: tryReadBlock_def Let_def split_beta isValid_def split: if_splits)
    ultimately have "pos t < pos t1" "pos t1 \<le> length (buf t)" "buf t1 = buf t" by auto
    then have "length (buf t1) - pos t1 < length (buf t) - pos t" by simp
    then show ?thesis by simp
  qed
  done

declare bk_loop.simps [simp del]

definition bk_writeChunk :: "'v block_decoder \<Rightarrow> buffer \<Rightarrow> nat \<Rightarrow> 'v block_decoder \<times> 'v item event list" where
  "bk_writeChunk s chunk cb =
     (let t0 = bk_tap s;
          t = \<lparr> buf = drop (pos t0) (buf t0) @ chunk, pos = 0 \<rparr>;
          s1 = s\<lparr> bk_tap := t, bk_nBlocks := (bk_nBlocks s)(cb := 1) \<rparr>;
          (s2, ev, ok) = bk_loop s1 t cb
      in if \<not> ok then (s2, ev)
         else (let (s3, ev') = bk_chunkCb s2 cb in (s3, ev @ ev')))"

text \<open>\<open>_decodeHeader\<close>; the result says whether it returned a true value (it returns
  \<open>false\<close> to wait for more data, nothing after an error, \<open>true\<close> once the header is in).\<close>

definition bk_decodeHeader :: "'v type_parser \<Rightarrow> 'v block_decoder \<Rightarrow> bool \<times> 'v block_decoder \<times> 'v item event list" where
  "bk_decodeHeader createType s =
     (let t = bk_tap s;
          (header, p) = header_read (buf t) (pos t);
          s1 = s\<lparr> bk_tap := t\<lparr> pos := p \<rparr> \<rparr>
      in if \<not> isValid (bk_tap s1) then (False, s1, [])
         else if MAGIC_BYTES \<noteq> h_magic header then (False, s1, [EmitError ''invalid magic bytes''])
         else (let codec = (case meta_lookup (h_meta header) ''avro.codec'' of
                              None \<Rightarrow> ''null'' | Some b \<Rightarrow> string_of b);
                   s2 = s1\<lparr> bk_decompress := bk_codecs s1 codec \<rparr>
               in case bk_decompress s2 of
                    None \<Rightarrow> (False, s2, [EmitError (''unknown codec: '' @ codec)])
                  | Some _ \<Rightarrow>
                      (case (case meta_lookup (h_meta header) ''avro.schema'' of
                               None \<Rightarrow> Inl ''TypeError: Cannot read property 'toString' of undefined''
                             | Some b \<Rightarrow> createType (string_of b)) of
                         Inl err \<Rightarrow> (False, s2, [EmitError err])
                       | Inr ty \<Rightarrow>
                           (True, s2\<lparr> bk_type := Some ty, bk_syncMarker := Some (h_sync header) \<rparr>,
                            [EmitMetadata codec]))))"

definition bk_write :: "'v type_parser \<Rightarrow> 'v block_decoder \<Rightarrow> buffer \<Rightarrow> nat \<Rightarrow> 'v block_decoder \<times> 'v item event list" where
  "bk_write createType s chunk cb =
     (if bk_started s then bk_writeChunk s chunk cb
      else (let t = bk_tap s;
                s1 = s\<lparr> bk_tap := \<lparr> buf = buf t @ chunk, pos = 0 \<rparr> \<rparr>;
                (ok, s2, ev) = bk_decodeHeader createType s1
            in if \<not> ok then (s2, ev @ [CallCb cb])
               else (let (s3, ev') = bk_writeChunk (s2\<lparr> bk_started := True \<rparr>) (new_Buffer 0) cb
                     in (s3, ev @ ev'))))"

text \<open>The handler of \<open>'finish'\<close> installed by the constructor.\<close>

definition bk_finish :: "'v block_decoder \<Rightarrow> 'v block_decoder \<times> 'v item event list" where
  "bk_finish s0 =
     (let s = s0\<lparr> bk_finished := True \<rparr>
      in if bk_needPush s then bk_read s else (s, []))"

text \<open>An asynchronous codec calls back for the job in flight whose block has index \<open>k\<close>.\<close>

fun take_job :: "nat \<Rightarrow> (block_cb \<times> buffer) list \<Rightarrow> ((block_cb \<times> buffer) \<times> (block_cb \<times> buffer) list) option" where
  "take_job k [] = None"
| "take_job k (j # js) =
     (if bc_index (fst j) = Num k then Some (j, js)
      else (case take_job k js of None \<Rightarrow> None | Some (x, js') \<Rightarrow> Some (x, j # js')))"

definition bk_complete :: "'v block_decoder \<Rightarrow> nat \<Rightarrow> 'v block_decoder \<times> 'v item event list" where
  "bk_complete s k =
     (case bk_decompress s of
        None \<Rightarrow> (s, [])
      | Some cd \<Rightarrow>
          (case take_job k (bk_jobs s) of
             None \<Rightarrow> (s, [])
           | Some ((c, b), js) \<Rightarrow> bk_blockCallback (s\<lparr> bk_jobs := js \<rparr>) c (c_apply cd b)))"

text \<open>What happens to a decoder: a chunk is written (with the number of its callback), the
  consumer reads, the writable side finishes, the decompression of a block completes.\<close>

datatype bk_action = BWrite buffer nat | BRead | BFinish | BComplete nat

fun bk_step :: "'v type_parser \<Rightarrow> 'v block_decoder \<Rightarrow> bk_action \<Rightarrow> 'v block_decoder \<times> 'v item event list" where
  "bk_step ct s (BWrite chunk cb) = bk_write ct s chunk cb"
| "bk_step ct s BRead = bk_read s"
| "bk_step ct s BFinish = bk_finish s"
| "bk_step ct s (BComplete k) = bk_complete s k"

fun bk_run :: "'v type_parser \<Rightarrow> 'v block_decoder \<Rightarrow> bk_action list \<Rightarrow> 'v block_decoder \<times> 'v item event list" where
  "bk_run ct s [] = (s, [])"
| "bk_run ct s (a # as) =
     (let (s1, ev1) = bk_step ct s a;
          (s2, ev2) = bk_run ct s1 as
      in (s2, ev1 @ ev2))"

text \<open>Examples: a parser that knows the schema \<open>"long"\<close> only, two headers with a sync marker
  of sixteen zero bytes, and blocks of longs.\<close>

definition long_parser :: "int type_parser" where
  "long_parser s = (if s = ''\"long\"'' then Inr (long_read, long_skip) else Inl ''unknown type'')"

definition header_with :: "buffer \<Rightarrow> string \<Rightarrow> buffer" where
  "header_with magic codecName =
     header_toBuffer \<lparr> h_magic = magic,
        h_meta = [(''avro.schema'', bytes_of ''\"long\"''), (''avro.codec'', bytes_of codecName)],
        h_sync = replicate 16 0 \<rparr>"

definition block_with :: "int list \<Rightarrow> buffer \<Rightarrow> buffer" where
  "block_with vs sync =
     long_toBuffer (int (length vs)) @ write_bytes (concat (map long_toBuffer vs)) @ sync"

definition default_codecs :: registry where
  "default_codecs = getDefaultCodecs Inr"

section \<open>Reference behaviour of the block phase\<close>

text \<open>The records a consumer gets from \<open>m\<close> successive reads when the blocks are taken in
  the order of their submission: \<open>D k\<close> is the decompressed data of the block submitted with
  index \<open>k\<close> (none if there is no such block or its decompression failed), \<open>t\<close> the tap on the
  block being read. This is what a codec that completes at once, in submission order, leads
  to.\<close>

fun in_order_reads :: "'v reader \<Rightarrow> (nat \<Rightarrow> buffer option) \<Rightarrow> nat \<Rightarrow> tap \<Rightarrow> nat \<Rightarrow> 'v item list" where
  "in_order_reads rv D 0 t k = []"
| "in_order_reads rv D (Suc m) t k =
     (if pos t \<ge> length (buf t) then
        (case D k of
           None \<Rightarrow> []
         | Some d \<Rightarrow> (let (v, t') = rv \<lparr> buf = d, pos = 0 \<rparr> in v # in_order_reads rv D m t' (k + 1)))
      else (let (v, t') = rv t in v # in_order_reads rv D m t' k))"

definition result_opt :: "string + buffer \<Rightarrow> buffer option" where
  "result_opt r = (case r of Inl _ \<Rightarrow> None | Inr d \<Rightarrow> Some d)"

text \<open>The reader a decoder in its block phase uses (before the header is in there is
  none; a reader of nothing stands for it).\<close>

definition bk_reader :: "'v block_decoder \<Rightarrow> 'v reader" where
  "bk_reader s = (case bk_type s of Some (rd, sk) \<Rightarrow> createReader (bk_decode s) rd sk
                  | None \<Rightarrow> (\<lambda>t. (Undecoded [], t)))"

fun is_write :: "bk_action \<Rightarrow> bool" where
  "is_write (BWrite _ _) = True"
| "is_write _ = False"

text \<open>Nothing is left to emit: no decompression in flight, no block queued, the block tap
  read to its end.\<close>

definition bk_drained :: "'v block_decoder \<Rightarrow> bool" where
  "bk_drained s \<longleftrightarrow> bk_jobs s = [] \<and> oq_items (bk_queue s) = []
      \<and> length (buf (bk_blockTap s)) \<le> pos (bk_blockTap s)"

text \<open>The settings of a decoder that no step of the block phase changes.\<close>

definition bk_config where
  "bk_config s = (bk_type s, bk_decode s, bk_decompress s, bk_started s, bk_syncMarker s, bk_codecs s)"

text \<open>The blocks queued (\<open>xs\<close>) and the decompressions in flight (\<open>js\<close>) are those of the
  submissions \<open>D\<close> that have an index from \<open>k\<close>, the next index to emit, up to \<open>n\<close>, the
  next index to assign: each carries such an index and the data \<open>D\<close> gives for it, no index
  occurs twice, and every such submission whose decompression succeeds is queued or in
  flight.\<close>

definition bk_tracked :: "codec \<Rightarrow> (nat \<Rightarrow> buffer option) \<Rightarrow> nat \<Rightarrow> nat \<Rightarrow> blockdata list \<Rightarrow> (block_cb \<times> buffer) list \<Rightarrow> bool" where
  "bk_tracked cd D k n xs js \<longleftrightarrow>
     k \<le> n
     \<and> (\<forall>x\<in>set xs. \<exists>i. bd_index x = Num i \<and> k \<le> i \<and> i < n \<and> D i = Some (bd_buf x))
     \<and> (\<forall>j\<in>set js. \<exists>i. bc_index (fst j) = Num i \<and> k \<le> i \<and> i < n
            \<and> D i = result_opt (c_apply cd (snd j)))
     \<and> distinct (map bd_index xs @ map (\<lambda>j. bc_index (fst j)) js)
     \<and> (\<forall>i. k \<le> i \<and> i < n \<and> D i \<noteq> None \<longrightarrow>
            (\<exists>x\<in>set xs. bd_index x = Num i) \<or> (\<exists>j\<in>set js. bc_index (fst j) = Num i))"

text \<open>A decoder that has assigned the indices below \<open>n\<close>: its queue and its decompressions
  in flight are those of the submissions \<open>D\<close>; in the block phase its reader is \<open>rv\<close> and
  its codec \<open>cd\<close>, before that nothing is queued, in flight, or left in the block tap.\<close>

definition bk_consistent :: "'v reader \<Rightarrow> codec \<Rightarrow> (nat \<Rightarrow> buffer option) \<Rightarrow> nat \<Rightarrow> 'v block_decoder \<Rightarrow> bool" where
  "bk_consistent rv cd D n s \<longleftrightarrow>
     bk_index s = Num n
     \<and> bk_tracked cd D (oq_index (bk_queue s)) n (oq_items (bk_queue s)) (bk_jobs s)
     \<and> (if bk_started s then bk_reader s = rv \<and> bk_type s \<noteq> None \<and> bk_decompress s = Some cd
        else oq_items (bk_queue s) = [] \<and> bk_jobs s = []
             \<and> length (buf (bk_blockTap s)) \<le> pos (bk_blockTap s))"

text \<open>What a step keeps, from a decoder that has assigned the indices below \<open>n\<close>: the
  consistency with the submissions, the step's calls of the codec being the next ones, and
  the relation between what it pushed and the reference reads.\<close>

definition bk_keeps :: "'v reader \<Rightarrow> codec \<Rightarrow> (nat \<Rightarrow> buffer option) \<Rightarrow> nat \<Rightarrow> 'v block_decoder \<Rightarrow> 'v block_decoder \<times> 'v item event list \<Rightarrow> bool" where
  "bk_keeps rv cd D n s r \<longleftrightarrow>
     bk_consistent rv cd D (n + length (codec_calls (snd r))) (fst r)
     \<and> (\<forall>m. pushed (snd r) @ in_order_reads rv D m (bk_blockTap (fst r)) (oq_index (bk_queue (fst r)))
            = in_order_reads rv D (m + length (pushed (snd r))) (bk_blockTap s) (oq_index (bk_queue s)))"

text \<open>The submissions from \<open>n\<close> on are the decompressions of these buffers.\<close>

definition bk_foretold :: "codec \<Rightarrow> (nat \<Rightarrow> buffer option) \<Rightarrow> nat \<Rightarrow> buffer list \<Rightarrow> bool" where
  "bk_foretold cd D n calls \<longleftrightarrow> (\<forall>j<length calls. D (n + j) = result_opt (c_apply cd (calls ! j)))"

text \<open>The submissions of a run: what the codec of the decoder makes of the buffers it was
  handed, in the order of the calls.\<close>

definition bk_submitted :: "'v block_decoder \<Rightarrow> 'a event list \<Rightarrow> nat \<Rightarrow> buffer option" where
  "bk_submitted s ev i =
     (case bk_decompress s of
        None \<Rightarrow> None
      | Some cd \<Rightarrow> if i < length (codec_calls ev) then result_opt (c_apply cd (codec_calls ev ! i)) else None)"

section \<open>The completion counter of a chunk\<close>

text \<open>The blocks dispatched from the chunk of write \<open>c\<close> that have not been consumed yet:
  those whose decompression is in flight and those queued.\<close>

definition bk_outstanding :: "'v block_decoder \<Rightarrow> nat \<Rightarrow> nat" where
  "bk_outstanding s c =
     length (filter (\<lambda>j. bc_cb (fst j) = Some c) (bk_jobs s))
     + length (filter (\<lambda>x. bd_cb x = Some c) (oq_items (bk_queue s)))"

text \<open>Whether the loop of \<open>_writeChunk\<close> on this chunk runs to its end (no block with a
  wrong sync marker), and what it emits.\<close>

definition bk_chunk_loop :: "'v block_decoder \<Rightarrow> buffer \<Rightarrow> nat \<Rightarrow> 'v block_decoder \<times> 'v item event list \<times> bool" where
  "bk_chunk_loop s chunk cb =
     (let t = \<lparr> buf = drop (pos (bk_tap s)) (buf (bk_tap s)) @ chunk, pos = 0 \<rparr>
      in bk_loop (s\<lparr> bk_tap := t, bk_nBlocks := (bk_nBlocks s)(cb := 1) \<rparr>) t cb)"

fun writes :: "nat \<Rightarrow> bk_action \<Rightarrow> bool" where
  "writes c (BWrite _ cb) = (cb = c)"
| "writes c _ = False"

text \<open>The state of the counter of chunk \<open>c\<close> after some steps: it is the number of
  outstanding blocks plus \<open>k\<close>, that sum has not grown beyond \<open>T\<close>, and the callback of the
  chunk was invoked in these steps once if the sum went from positive to zero, else not.\<close>

text \<open>The decoder has left the header phase: \<open>_write\<close> is \<open>_writeChunk\<close> and the codec
  of the header has been found.\<close>

definition bk_block_phase :: "'v block_decoder \<Rightarrow> bool" where
  "bk_block_phase s \<longleftrightarrow> bk_started s \<and> bk_decompress s \<noteq> None"

definition bk_counts :: "nat \<Rightarrow> nat \<Rightarrow> nat \<Rightarrow> 'v block_decoder \<times> 'v item event list \<Rightarrow> bool" where
  "bk_counts c k T r \<longleftrightarrow>
     bk_block_phase (fst r)
     \<and> bk_nBlocks (fst r) c = int (bk_outstanding (fst r) c + k)
     \<and> bk_outstanding (fst r) c + k \<le> T
     \<and> count_list (snd r) (CallCb c) = (if 0 < T \<and> bk_outstanding (fst r) c + k = 0 then 1 else 0)"

text \<open>One turn of the loop of \<open>_writeChunk\<close> for a block with the right sync marker: count
  it, create its callback, hand its data to the codec.\<close>

definition bk_dispatch :: "'v block_decoder \<Rightarrow> block \<Rightarrow> nat \<Rightarrow> 'v block_decoder \<times> 'v item event list" where
  "bk_dispatch s blk cb =
     (let s1 = s\<lparr> bk_nBlocks := (bk_nBlocks s)(cb := bk_nBlocks s cb + 1) \<rparr>;
          (c, s2) = bk_createBlockCallback s1 cb
      in bk_call_decompress s2 (b_data blk) c)"

text \<open>A decoder of longs that has read a header naming the codec \<open>null\<close>, after a first
  read of the consumer; and a chunk of two blocks with the header's sync marker.\<close>

definition bk_after_header :: "int block_decoder" where
  "bk_after_header = fst (bk_run long_parser (BlockDecoder True default_codecs)
       [BRead, BWrite (header_with MAGIC_BYTES ''null'') 0])"

definition two_blocks_chunk :: buffer where
  "two_blocks_chunk = block_with [1, 2] (replicate 16 0) @ block_with [3] (replicate 16 0)"

text \<open>Two runs of a decoder of longs with the same writes: a header naming the codec
  \<open>deflate\<close> (here a codec that calls back later and leaves the bytes as they are), then a
  chunk of two blocks. In the first the decompression of the second block completes before
  that of the first, in the second they complete in the order of submission.\<close>

definition out_of_order_run :: "bk_action list" where
  "out_of_order_run =
     [BRead, BWrite (header_with MAGIC_BYTES ''deflate'') 0, BWrite two_blocks_chunk 1,
      BComplete 1, BRead, BComplete 0, BRead, BRead, BRead]"

definition in_order_run :: "bk_action list" where
  "in_order_run =
     [BWrite (header_with MAGIC_BYTES ''deflate'') 0, BWrite two_blocks_chunk 1,
      BComplete 0, BComplete 1, BRead, BRead, BRead, BRead]"

section \<open>Properties of the tap and of RawEncoder\<close>

lemma length_tap_write [simp]: "length (buf (tap_write t bs)) = length (buf t)"
  by (simp add: tap_write_def)

lemma pos_tap_write [simp]: "pos (tap_write t bs) = pos t + length bs"
  by (simp add: tap_write_def)

lemma isValid_tap_write:
  "isValid (tap_write t bs) = (pos t + length bs \<le> length (buf t))"
  by (simp add: isValid_def)

lemma take_tap_write_fit:
  "pos t + length bs \<le> length (buf t) \<Longrightarrow>
   take (pos t + length bs) (buf (tap_write t bs)) = take (pos t) (buf t) @ bs"
  by (cases bs) (auto simp add: tap_write_def min_def)

lemma take_tap_write_prefix:
  "n \<le> pos t \<Longrightarrow> take n (buf (tap_write t bs)) = take n (buf t)"
  by (auto simp add: tap_write_def min_def take_all)

lemma re_transform_fits:
  assumes "enc v = Inr bs" "pos (re_tap s) + length bs \<le> length (buf (re_tap s))"
  shows "re_transform enc s v = (s\<lparr>re_tap := tap_write (re_tap s) bs\<rparr>, [CallCb 0])"
  using assms by (simp add: re_transform_def writeValue_def isValid_tap_write Let_def)

lemma re_transform_overflow:
  assumes "enc v = Inr bs" "\<not> pos (re_tap s) + length bs \<le> length (buf (re_tap s))"
  shows "re_transform enc s v =
      (s\<lparr>re_tap := tap_write ((tap_write (re_tap s) bs)\<lparr> buf := (if length bs > length (buf (re_tap s)) then new_Buffer (2 * length bs)
                                       else buf (tap_write (re_tap s) bs)), pos := 0 \<rparr>) bs\<rparr>,
       (if pos (re_tap s) \<noteq> 0 then [Push (copyBuffer (buf (tap_write (re_tap s) bs)) 0 (pos (re_tap s)))] else []) @ [CallCb 0])"
  using assms by (simp add: re_transform_def writeValue_def isValid_tap_write Let_def)

lemma re_transform_inv:
  assumes "isValid (re_tap s)" "enc v = Inr bs" "re_transform enc s v = (s', ev)"
  shows "isValid (re_tap s') \<and> concat (pushed ev) @ re_pending s' = re_pending s @ bs"
proof (cases "pos (re_tap s) + length bs \<le> length (buf (re_tap s))")
  case True
  then show ?thesis using assms re_transform_fits[of enc v bs s]
    by (auto simp: re_pending_def isValid_tap_write take_tap_write_fit)
next
  case False
  have "take (length bs) (buf (tap_write (t\<lparr> buf := b, pos := 0 \<rparr>) bs)) = bs" if "length bs \<le> length b" for b t
    using take_tap_write_fit[of "t\<lparr> buf := b, pos := 0 \<rparr>" bs] that by simp
  then show ?thesis using assms re_transform_overflow[of enc v bs s] False
    by (auto simp: re_pending_def isValid_tap_write new_Buffer_def copyBuffer_def take_tap_write_prefix isValid_def)
qed

lemma re_run_inv:
  assumes "isValid (re_tap s)" "\<forall>v\<in>set vs. enc v = Inr (dec v)" "re_run enc s vs = (s', ev)"
  shows "isValid (re_tap s') \<and> concat (pushed ev) @ re_pending s' = re_pending s @ concat (map dec vs)"
  using assms
proof (induction vs arbitrary: s s' ev)
  case Nil
  then show ?case by simp
next
  case (Cons v vs)
  obtain s1 ev1 where t: "re_transform enc s v = (s1, ev1)" by (cases "re_transform enc s v")
  obtain s2 ev2 where r: "re_run enc s1 vs = (s2, ev2)" by (cases "re_run enc s1 vs")
  from Cons.prems t r have e: "s' = s2" "ev = ev1 @ ev2" by auto
  have i1: "isValid (re_tap s1)" "concat (pushed ev1) @ re_pending s1 = re_pending s @ dec v"
    using re_transform_inv[OF Cons.prems(1) _ t, of "dec v"] Cons.prems(2) by auto
  have i2: "isValid (re_tap s2)" "concat (pushed ev2) @ re_pending s2 = re_pending s1 @ concat (map dec vs)"
    using Cons.IH[OF i1(1) _ r] Cons.prems(2) by auto
  have pa: "pushed (ev1 @ ev2) = pushed ev1 @ pushed ev2" for ev1 ev2 :: "buffer event list"
    by (induction ev1 rule: pushed.induct) auto
  show ?case using i1 i2 e pa
    by (metis append.assoc concat.simps(2) concat_append list.simps(9))
qed

lemma pushed_append: "pushed (xs @ ys) = pushed xs @ pushed ys"
  by (induction xs rule: pushed.induct) auto

lemma raw_encode_concat:
  assumes "\<forall>v\<in>set vs. enc v = Inr (dec v)"
  shows "concat (raw_encode enc k vs) = concat (map dec vs)"
proof -
  obtain s ev where r: "re_run enc (RawEncoder k) vs = (s, ev)" by (cases "re_run enc (RawEncoder k) vs")
  have v0: "isValid (re_tap (RawEncoder k))" "re_pending (RawEncoder k) = []"
    by (simp_all add: RawEncoder_def isValid_def re_pending_def)
  from re_run_inv[OF v0(1) assms r] v0(2)
  have "concat (pushed ev) @ re_pending s = concat (map dec vs)" by simp
  moreover have "concat (pushed (re_flush s)) = re_pending s"
    by (simp add: re_flush_def re_pending_def Let_def)
  ultimately show ?thesis using r by (simp add: raw_encode_def pushed_append)
qed

text \<open>Claim C4, as the code has it. When the write of a value overflows the tap,
  \<open>_transform\<close> pushes a copy of the valid prefix \<open>buf[0..pos0)\<close> if \<open>pos0 > 0\<close>,
  replaces the buffer by one of twice the length of the failed write exactly when that length
  exceeds the capacity, sets the position to 0 and writes the value again, which then fits; and
  the concatenation of everything a run pushes is the concatenation of the encodings of the
  values, whatever the initial batch size. So after a record longer than the capacity of the
  tap at the time of the write (not merely longer than the initial batch size) the capacity
  is twice the length of its encoding.\<close>

theorem RawEncoder_overflow_retry:
  assumes "isValid (re_tap s)" and "enc v = Inr bs" and "\<not> isValid (tap_write (re_tap s) bs)"
  shows "(let (s', ev) = re_transform enc s v in
          pushed ev = (if 0 < pos (re_tap s) then [take (pos (re_tap s)) (buf (re_tap s))] else [])
        \<and> length (buf (re_tap s')) =
            (if length (buf (re_tap s)) < length bs then 2 * length bs else length (buf (re_tap s)))
        \<and> pos (re_tap s') = length bs \<and> isValid (re_tap s')
        \<and> take (length bs) (buf (re_tap s')) = bs)
      \<and> (\<forall>k vs dec. (\<forall>x\<in>set vs. enc x = Inr (dec x)) \<longrightarrow>
            concat (raw_encode enc k vs) = concat (map dec vs))"
proof -
  have ov: "\<not> pos (re_tap s) + length bs \<le> length (buf (re_tap s))"
    using assms(3) by (simp add: isValid_tap_write)
  have fit: "take (length bs) (buf (tap_write (t\<lparr> buf := b, pos := 0 \<rparr>) bs)) = bs"
    if "length bs \<le> length b" for b t
    using take_tap_write_fit[of "t\<lparr> buf := b, pos := 0 \<rparr>" bs] that by simp
  have "pos (re_tap s) \<le> length (buf (re_tap s))" using assms(1) by (simp add: isValid_def)
  then have one: "(let (s', ev) = re_transform enc s v in
          pushed ev = (if 0 < pos (re_tap s) then [take (pos (re_tap s)) (buf (re_tap s))] else [])
        \<and> length (buf (re_tap s')) =
            (if length (buf (re_tap s)) < length bs then 2 * length bs else length (buf (re_tap s)))
        \<and> pos (re_tap s') = length bs \<and> isValid (re_tap s')
        \<and> take (length bs) (buf (re_tap s')) = bs)"
    using re_transform_overflow[of enc v bs s] assms(2) ov
    by (auto simp: isValid_def new_Buffer_def copyBuffer_def take_tap_write_prefix fit)
  show ?thesis using one raw_encode_concat by blast
qed

lemma l70000: "long_toBuffer 70000 = [224, 197, 8]"
  by (simp add: long_toBuffer_def zigzag_def varint.simps)
lemma l1000: "long_toBuffer 1000 = [208, 15]"
  by (simp add: long_toBuffer_def zigzag_def varint.simps)

text \<open>Claim C4, as stated, fails: with batch size 1 the record 1000 (two bytes) grows the
  tap to four bytes; the record 70000 (three bytes, more than the batch size) then overflows,
  is rewritten at position 0 without reallocation, and leaves a capacity of 4, less than 6.\<close>

theorem RawEncoder_capacity_counterexample:
  "1 < length (long_toBuffer 70000) \<and>
   \<not> 2 * length (long_toBuffer 70000)
       \<le> length (buf (re_tap (fst (re_run long_write (RawEncoder 1) [1000, 70000]))))"
  by (simp add: l70000 l1000 long_write_def RawEncoder_def new_Buffer_def re_transform_def writeValue_def
      isValid_def tap_write_def copyBuffer_def Let_def)

text \<open>In the state reached above after the record 1000, the record 70000 overflows: the
  two bytes of 1000 are pushed, the tap is reused without reallocation, and the whole run
  pushes the bytes of both records.\<close>

theorem RawEncoder_overflow_retry_witness:
  "isValid (re_tap \<lparr> re_tap = \<lparr> buf = [208, 15, 0, 0], pos = 2 \<rparr> \<rparr>)
   \<and> long_write 70000 = Inr [224, 197, 8]
   \<and> \<not> isValid (tap_write (re_tap \<lparr> re_tap = \<lparr> buf = [208, 15, 0, 0], pos = 2 \<rparr> \<rparr>) [224, 197, 8])
   \<and> pushed (snd (re_transform long_write \<lparr> re_tap = \<lparr> buf = [208, 15, 0, 0], pos = 2 \<rparr> \<rparr> 70000)) = [[208, 15]]
   \<and> re_tap (fst (re_transform long_write \<lparr> re_tap = \<lparr> buf = [208, 15, 0, 0], pos = 2 \<rparr> \<rparr> 70000))
        = \<lparr> buf = [224, 197, 8, 197], pos = 3 \<rparr>
   \<and> concat (raw_encode long_write 1 [1000, 70000]) = [208, 15, 224, 197, 8]"
proof -
  have h1: "isValid (re_tap \<lparr> re_tap = \<lparr> buf = [208, 15, 0, 0], pos = 2 \<rparr> \<rparr>)"
    by (simp add: isValid_def)
  have h2: "long_write 70000 = Inr [224, 197, 8]" by (simp add: long_write_def l70000)
  have h3: "\<not> isValid (tap_write (re_tap \<lparr> re_tap = \<lparr> buf = [208, 15, 0, 0], pos = 2 \<rparr> \<rparr>) [224, 197, 8])"
    by (simp add: isValid_def tap_write_def)
  note T = RawEncoder_overflow_retry[of "\<lparr> re_tap = \<lparr> buf = [208, 15, 0, 0], pos = 2 \<rparr> \<rparr>" long_write 70000 "[224, 197, 8]", OF h1 h2 h3]
  have c: "concat (raw_encode long_write 1 [1000, 70000]) = concat (map long_toBuffer [1000, 70000])"
    using conjunct2[OF T, rule_format, of "[1000, 70000]" long_toBuffer 1] by (simp add: long_write_def)
  have e: "re_transform long_write \<lparr> re_tap = \<lparr> buf = [208, 15, 0, 0], pos = 2 \<rparr> \<rparr> 70000
     = (\<lparr> re_tap = \<lparr> buf = [224, 197, 8, 197], pos = 3 \<rparr> \<rparr>, [Push [208, 15], CallCb 0])"
    by (simp add: h2 re_transform_def writeValue_def isValid_def tap_write_def copyBuffer_def Let_def)
  show ?thesis using h1 h2 h3 c e by (simp add: l70000 l1000)
qed

section \<open>Properties of RawDecoder\<close>

lemma createReader_buf [simp]: "buf (snd (createReader decode rd sk t)) = buf t"
  by (simp add: createReader_def Let_def split: prod.split)


lemma createReader_restore: "(snd (createReader decode rd sk t))\<lparr> pos := pos t \<rparr> = t"
  by (simp add: createReader_def Let_def split: prod.split)

lemma rd_read_stall:
  assumes "\<not> isValid (snd (createReader decode rd sk (rd_tap s)))" "\<not> rd_finished s"
  shows "rd_read (createReader decode rd sk) s =
           (s\<lparr> rd_needPush := True \<rparr>, case rd_writeCb s of Some cb \<Rightarrow> [CallCb cb] | None \<Rightarrow> [])"
  using assms by (simp add: rd_read_def Let_def createReader_restore split_beta)

lemma rd_read_end:
  assumes "\<not> isValid (snd (createReader decode rd sk (rd_tap s)))" "rd_finished s"
  shows "rd_read (createReader decode rd sk) s =
           (s\<lparr> rd_needPush := False, rd_tap := snd (createReader decode rd sk (rd_tap s)) \<rparr>, [PushNull])"
  using assms by (simp add: rd_read_def Let_def split_beta)





lemma rd_feed_Nil_end:
  assumes "\<not> isValid (snd (createReader decode rd sk (rd_tap s)))"
  shows "rd_feed (createReader decode rd sk) n i s [] =
    (s\<lparr> rd_finished := True, rd_needPush := False, rd_tap := snd (createReader decode rd sk (rd_tap s)) \<rparr>, [PushNull])"
  using assms rd_read_end[of decode rd sk "s\<lparr> rd_finished := True \<rparr>"]
  by (simp add: rd_finish_def)

text \<open>Claim C9, as the code has it. When the stream finishes and the speculative read of
  what is left in the tap leaves it invalid (a partial record, or nothing at all for a type
  whose values take at least one byte), the only thing the decoder does is push the end of
  the stream: no record, no error, the residual bytes are dropped. A decoder that was fed
  nothing, whose read of the empty tap leaves it invalid, pushes the end of the stream and
  nothing else, whether or not the consumer had already asked for a record.\<close>

theorem RawDecoder_truncated_end:
  assumes "\<not> isValid (snd (createReader decode rd sk (rd_tap s)))"
  shows "snd (rd_finish (createReader decode rd sk) s) = [PushNull]
       \<and> snd (rd_feed (createReader decode rd sk) n i s []) = [PushNull]
       \<and> (\<not> isValid (snd (createReader decode rd sk (rd_tap RawDecoder))) \<longrightarrow>
            rd_run (createReader decode rd sk) n early [] = [PushNull])"
proof -
  have a: "snd (rd_finish (createReader decode rd sk) s) = [PushNull]"
    using assms rd_read_end[of decode rd sk "s\<lparr> rd_finished := True \<rparr>"] by (simp add: rd_finish_def)
  have b: "snd (rd_feed (createReader decode rd sk) n i s []) = [PushNull]"
    using rd_feed_Nil_end[OF assms] by simp
  have c: "rd_run (createReader decode rd sk) n early [] = [PushNull]" if inv: "\<not> isValid (snd (createReader decode rd sk (rd_tap RawDecoder)))"
  proof -
    have r: "rd_read (createReader decode rd sk) RawDecoder = (RawDecoder\<lparr> rd_needPush := True \<rparr>, [])"
      using rd_read_stall[of decode rd sk RawDecoder] inv by (simp add: RawDecoder_def)
    have f1: "snd (rd_feed (createReader decode rd sk) n 0 RawDecoder []) = [PushNull]"
      using rd_feed_Nil_end[of decode rd sk RawDecoder n 0] inv by simp
    have f2: "snd (rd_feed (createReader decode rd sk) n 0 (RawDecoder\<lparr> rd_needPush := True \<rparr>) []) = [PushNull]"
      using rd_feed_Nil_end[of decode rd sk "RawDecoder\<lparr> rd_needPush := True \<rparr>" n 0] inv by simp
    show ?thesis using r f1 f2 by (cases early) (simp_all add: rd_run_def del: rd_feed.simps)
  qed
  show ?thesis using a b c by blast
qed

text \<open>Claim C9, as stated, fails: for a type whose values are written as no bytes at all a
  decoder that was fed nothing finds every read valid; it pushes a record each time the
  consumer asks, and never the end of the stream.\<close>

theorem RawDecoder_truncated_end_counterexample:
  "rd_run (createReader True empty_read empty_skip) 2 True []
     = [Push (Decoded ()), Push (Decoded ()), Push (Decoded ()), Push (Decoded ())]"
  by (simp add: rd_run_def rd_finish_def rd_read_def createReader_def empty_read_def
      RawDecoder_def isValid_def new_Buffer_def numeral_2_eq_2)

lemma rv208: "read_varint [208] 0 = (80, 2)"
  by code_simp

lemma rvnil: "read_varint [] 0 = (0, 1)"
  by code_simp

text \<open>A decoder of longs that finishes holding the first byte of the two-byte record 1000.\<close>

theorem RawDecoder_truncated_end_witness:
  "\<not> isValid (snd (createReader True long_read long_skip \<lparr> buf = [208], pos = 0 \<rparr>))
   \<and> snd (rd_finish (createReader True long_read long_skip)
        \<lparr> rd_tap = \<lparr> buf = [208], pos = 0 \<rparr>, rd_writeCb = Some 0, rd_needPush = True, rd_finished = False \<rparr>)
       = [PushNull]
   \<and> rd_run (createReader True long_read long_skip) 3 False [] = [PushNull]"
proof -
  have h: "\<not> isValid (snd (createReader True long_read long_skip \<lparr> buf = [208], pos = 0 \<rparr>))"
    by (simp add: createReader_def long_read_def rv208 isValid_def)
  have h0: "\<not> isValid (snd (createReader True long_read long_skip (rd_tap RawDecoder)))"
    by (simp add: createReader_def long_read_def rvnil isValid_def RawDecoder_def new_Buffer_def)
  show ?thesis
    using RawDecoder_truncated_end[of True long_read long_skip
        "\<lparr> rd_tap = \<lparr> buf = [208], pos = 0 \<rparr>, rd_writeCb = Some 0, rd_needPush = True, rd_finished = False \<rparr>" 3 0 False]
      h h0 by simp
qed

section \<open>RawEncoder followed by RawDecoder\<close>






lemma rd_pump_stalled [simp]: "rd_needPush s \<Longrightarrow> rd_pump rv n s = (s, [])"
  by (cases n) simp_all







lemma pushed_map_Push [simp]: "pushed (map (\<lambda>v. Push (f v)) vs) = map f vs"
  by (induction vs) auto


lemma errors_map_Push [simp]: "errors (map (\<lambda>v. Push (f v)) vs) = []"
  by (induction vs) auto






section \<open>Properties of BlockEncoder\<close>

lemma long42: "long_toBuffer 42 = [84]"
  by (simp add: long_toBuffer_def zigzag_def varint.simps)

lemma be_example_run:
  "be_run long_write be_example [Write 42 0, Finish]
   = (be_example\<lparr> be_compress := Some null_codec, be_started := True,
         be_tap := \<lparr> buf = [84, 0, 0, 0], pos = 1 \<rparr>,
         be_finished := True, be_index := NaN,
         be_queue := \<lparr> oq_index = 0, oq_items = [\<lparr> bd_index = NaN, bd_buf = [84], bd_cb = None, bd_count = 1 \<rparr>] \<rparr> \<rparr>,
      [CallCb 0, CallCodec [84]])"
  by (simp add: be_example_def BlockEncoder_def be_read_def be_write_def be_writeChunk_def
      be_finish_def be_flushChunk_def be_createBlockCallback_def be_call_compress_def
      be_blockCallback_def oq_pop_def oq_push_def OrderedQueue_def getDefaultCodecs_def
      null_codec_def writeValue_def long_write_def long42 tap_write_def isValid_def
      new_Buffer_def slice_def Let_def eval_nat_numeral)

text \<open>Claim C3 fails on the code. The constructor never assigns \<open>_index\<close>, so the first
  \<open>this._index++\<close> yields \<open>NaN\<close> and leaves \<open>NaN\<close>: the first block submitted gets the index
  \<open>NaN\<close>, not 0, and the second gets \<open>NaN\<close> again, not 1. In the run that writes the long 42
  and finishes, the block is queued under the index \<open>NaN\<close>.\<close>

theorem BlockEncoder_index_unassigned:
  "bc_index (fst (be_createBlockCallback be_example None)) = NaN
   \<and> be_index (snd (be_createBlockCallback be_example None)) = NaN
   \<and> bc_index (fst (be_createBlockCallback (snd (be_createBlockCallback be_example None)) None)) = NaN
   \<and> map bd_index (oq_items (be_queue (fst (be_run long_write be_example [Write 42 0, Finish])))) = [NaN]"
  unfolding be_example_run
  by (simp add: be_createBlockCallback_def be_example_def BlockEncoder_def)

lemma set_oq_insert [simp]: "set (oq_insert x xs) = insert x (set xs)"
  by (induction xs) auto

lemma oq_pop_unindexed:
  assumes "\<forall>x\<in>set (oq_items q). bd_index x = NaN"
  shows "oq_pop q = (case oq_items q of [] \<Rightarrow> (None, q)
                     | x # xs \<Rightarrow> (Some x, \<lparr> oq_index = oq_index q + 1, oq_items = xs \<rparr>))"
  using assms by (cases "oq_items q") (simp_all add: oq_pop_def)

lemma be_read_unindexed:
  assumes "be_unindexed s"
  shows "be_unindexed (fst (be_read s))"
proof -
  have p: "oq_pop (be_queue s) = (case oq_items (be_queue s) of [] \<Rightarrow> (None, be_queue s)
       | x # xs \<Rightarrow> (Some x, \<lparr> oq_index = oq_index (be_queue s) + 1, oq_items = xs \<rparr>))"
    using assms by (intro oq_pop_unindexed) (simp add: be_unindexed_def)
  show ?thesis
    using assms unfolding be_read_def p
    by (cases "oq_items (be_queue s)") (simp_all add: be_unindexed_def Let_def)
qed

lemma be_blockCallback_unindexed:
  assumes "be_unindexed s" and "bc_index c = NaN"
  shows "be_unindexed (fst (be_blockCallback s c res))"
proof (cases res)
  case (Inl err)
  then show ?thesis using assms(1) by (simp add: be_blockCallback_def)
next
  case (Inr data)
  let ?s2 = "s\<lparr> be_pending := be_pending s - 1,
       be_queue := oq_push (be_queue s)
           \<lparr> bd_index = bc_index c, bd_buf = data, bd_cb = bc_cb c, bd_count = bc_count c \<rparr> \<rparr>"
  have u: "be_unindexed ?s2" using assms by (simp add: be_unindexed_def oq_push_def)
  then have "be_unindexed (?s2\<lparr> be_needPush := False \<rparr>)" by (simp add: be_unindexed_def)
  from be_read_unindexed[OF this] u show ?thesis
    using Inr by (simp add: be_blockCallback_def Let_def)
qed

lemma be_flushChunk_unindexed:
  assumes "be_unindexed s"
  shows "be_unindexed (fst (be_flushChunk s p0 cb))"
proof -
  obtain c s1 where c: "be_createBlockCallback s cb = (c, s1)" by (cases "be_createBlockCallback s cb")
  have i: "bc_index c = NaN" and u1: "be_unindexed s1"
    using assms c by (auto simp: be_createBlockCallback_def be_unindexed_def split_beta)
  have "be_unindexed (fst (be_call_compress s1 b c))" for b
  proof (cases "be_compress s1")
    case None
    then show ?thesis using u1 by (simp add: be_call_compress_def)
  next
    case (Some cd)
    show ?thesis
    proof (cases "c_sync cd")
      case True
      then show ?thesis using Some be_blockCallback_unindexed[OF u1 i, of "c_apply cd b"]
        by (simp add: be_call_compress_def split_beta)
    next
      case False
      then show ?thesis using Some u1 i by (simp add: be_call_compress_def be_unindexed_def)
    qed
  qed
  then have "be_unindexed ((fst (be_call_compress s1 b c))\<lparr> be_blockCount := 0 \<rparr>)" for b
    by (simp add: be_unindexed_def)
  then show ?thesis by (simp add: be_flushChunk_def c Let_def split_beta)
qed

lemma be_unindexed_cong:
  "be_index s' = be_index s \<Longrightarrow> be_queue s' = be_queue s \<Longrightarrow> be_jobs s' = be_jobs s
     \<Longrightarrow> be_unindexed s' = be_unindexed s"
  by (simp add: be_unindexed_def)

lemma be_writeChunk_unindexed:
  assumes "be_unindexed s"
  shows "be_unindexed (fst (be_writeChunk enc s v cb))"
proof -
  let ?t1 = "fst (writeValue enc (be_tap s) v)"
  let ?s1 = "s\<lparr> be_tap := ?t1 \<rparr>"
  have u1: "be_unindexed ?s1" using assms by (simp add: be_unindexed_def)
  show ?thesis
  proof (cases "isValid ?t1")
    case True
    then show ?thesis using u1 by (simp add: be_writeChunk_def Let_def split_beta be_unindexed_def)
  next
    case False
    let ?s2 = "fst (if pos (be_tap s) \<noteq> 0 then be_flushChunk ?s1 (Some (pos (be_tap s))) (Some cb) else (?s1, []))"
    have u2: "be_unindexed ?s2" using u1 be_flushChunk_unindexed[OF u1] by simp
    let ?s3 = "if pos ?t1 - pos (be_tap s) > be_blockSize ?s2
               then ?s2\<lparr> be_blockSize := (pos ?t1 - pos (be_tap s)) * 2 \<rparr> else ?s2"
    have u3: "be_unindexed ?s3" using u2 by (simp add: be_unindexed_def)
    have "fst (be_writeChunk enc s v cb)
        = ?s3\<lparr> be_tap := fst (writeValue enc \<lparr> buf = new_Buffer (be_blockSize ?s3), pos = 0 \<rparr> v),
               be_blockCount := be_blockCount ?s3 + 1 \<rparr>"
      using False by (simp add: be_writeChunk_def Let_def split_beta)
    moreover have "be_unindexed (?s3\<lparr> be_tap := t, be_blockCount := n \<rparr>)" for t n
      using u3 by (simp add: be_unindexed_def)
    ultimately show ?thesis by simp
  qed
qed

lemma be_step_unindexed:
  assumes "be_unindexed s"
  shows "be_unindexed (fst (be_step enc s a))"
proof (cases a)
  case (Write v cb)
  show ?thesis
  proof (cases "be_started s")
    case True
    then show ?thesis using Write be_writeChunk_unindexed[OF assms] by (simp add: be_write_def)
  next
    case False
    let ?s1 = "s\<lparr> be_compress := be_codecs s (be_codec s) \<rparr>"
    have "be_unindexed (?s1\<lparr> be_started := True \<rparr>)" "be_unindexed ?s1"
      using assms by (simp_all add: be_unindexed_def)
    from be_writeChunk_unindexed[OF this(1)] this(2) show ?thesis
      using Write False by (cases "be_codecs s (be_codec s)") (simp_all add: be_write_def Let_def split_beta)
  qed
next
  case Read
  then show ?thesis using be_read_unindexed[OF assms] by simp
next
  case Finish
  have "be_unindexed (s\<lparr> be_finished := True \<rparr>)" using assms by (simp add: be_unindexed_def)
  from be_flushChunk_unindexed[OF this] this show ?thesis
    using Finish by (simp add: be_finish_def Let_def)
next
  case (Complete j)
  show ?thesis
  proof (cases "j < length (be_jobs s)")
    case False
    then show ?thesis using Complete assms by (simp add: be_complete_def)
  next
    case True
    let ?s1 = "s\<lparr> be_jobs := take j (be_jobs s) @ drop (Suc j) (be_jobs s) \<rparr>"
    have "set (be_jobs ?s1) \<subseteq> set (be_jobs s)"
      using set_take_subset[of j "be_jobs s"] set_drop_subset[of "Suc j" "be_jobs s"] by auto
    then have u1: "be_unindexed ?s1" using assms unfolding be_unindexed_def by auto
    have i: "bc_index (fst (be_jobs s ! j)) = NaN"
      using assms True by (simp add: be_unindexed_def)
    from be_blockCallback_unindexed[OF u1 i] u1 show ?thesis
      using Complete True by (simp add: be_complete_def Let_def split_beta split: option.split)
  qed
qed

lemma be_run_unindexed:
  "be_unindexed s \<Longrightarrow> be_unindexed (fst (be_run enc s acts))"
proof (induction acts arbitrary: s)
  case Nil
  then show ?case by simp
next
  case (Cons a acts)
  from Cons.IH[OF be_step_unindexed[OF Cons.prems, of enc a]]
  show ?case by (simp add: split_beta)
qed

lemma BlockEncoder_unindexed: "be_unindexed (BlockEncoder schema bs codecs cn oh sm)"
  by (simp add: BlockEncoder_def be_unindexed_def OrderedQueue_def Let_def)

text \<open>Claim C6. In every state an encoder reaches from its constructor, whatever was
  written, read, finished or completed before, a \<open>_read\<close> pushes the end of the stream if
  and only if the stream has finished, no compression is pending and the queue is empty.
  If the queue is empty and one of the other two does not hold, it pushes nothing and sets
  \<open>_needPush\<close>. If the queue holds a block, it takes the first and pushes exactly four
  buffers, in this order: the count of the block as a long, the length of its data as a
  long, the data, the sync marker; and nothing else.\<close>

theorem BlockEncoder_read_pushes:
  "(let s = fst (be_run enc (BlockEncoder schema bs codecs cn oh sm) acts)
    in (PushNull \<in> set (snd (be_read s))
          \<longleftrightarrow> be_finished s \<and> be_pending s = 0 \<and> oq_items (be_queue s) = [])
     \<and> (case oq_items (be_queue s) of
          [] \<Rightarrow> pushed (snd (be_read s)) = []
                \<and> be_needPush (fst (be_read s)) = (if be_finished s \<and> be_pending s = 0 then be_needPush s else True)
        | d # ds \<Rightarrow>
            pushed (snd (be_read s))
              = [long_toBuffer (int (bd_count d)), long_toBuffer (int (length (bd_buf d))),
                 bd_buf d, be_syncMarker s]
            \<and> oq_items (be_queue (fst (be_read s))) = ds))"
proof -
  let ?s = "fst (be_run enc (BlockEncoder schema bs codecs cn oh sm) acts)"
  have u: "be_unindexed ?s" by (rule be_run_unindexed[OF BlockEncoder_unindexed])
  have p: "oq_pop (be_queue ?s) = (case oq_items (be_queue ?s) of [] \<Rightarrow> (None, be_queue ?s)
       | x # xs \<Rightarrow> (Some x, \<lparr> oq_index = oq_index (be_queue ?s) + 1, oq_items = xs \<rparr>))"
    using u by (intro oq_pop_unindexed) (simp add: be_unindexed_def)
  show ?thesis
    unfolding Let_def be_read_def p
    by (cases "oq_items (be_queue ?s)") (auto simp: Let_def split: option.splits)
qed

section \<open>Properties of BlockDecoder: the steps\<close>

lemma bk_chunkCb_fields [simp]:
  "bk_type (fst (bk_chunkCb s c)) = bk_type s"
  "bk_decode (fst (bk_chunkCb s c)) = bk_decode s"
  "bk_decompress (fst (bk_chunkCb s c)) = bk_decompress s"
  "bk_queue (fst (bk_chunkCb s c)) = bk_queue s"
  "bk_jobs (fst (bk_chunkCb s c)) = bk_jobs s"
  "bk_blockTap (fst (bk_chunkCb s c)) = bk_blockTap s"
  "bk_needPush (fst (bk_chunkCb s c)) = bk_needPush s"
  "bk_finished (fst (bk_chunkCb s c)) = bk_finished s"
  "bk_syncMarker (fst (bk_chunkCb s c)) = bk_syncMarker s"
  "bk_index (fst (bk_chunkCb s c)) = bk_index s"
  "bk_tap (fst (bk_chunkCb s c)) = bk_tap s"
  "bk_started (fst (bk_chunkCb s c)) = bk_started s"
  "bk_nBlocks (fst (bk_chunkCb s c)) = (bk_nBlocks s)(c := bk_nBlocks s c - 1)"
  "pushed (snd (bk_chunkCb s c)) = []"
  by (simp_all add: bk_chunkCb_def Let_def)

lemma bk_read_tap:
  assumes "pos (bk_blockTap s) < length (buf (bk_blockTap s))" and "bk_type s = Some ty"
  shows "bk_read s =
     (s\<lparr> bk_needPush := False, bk_blockTap := snd (bk_reader s (bk_blockTap s)) \<rparr>,
      [Push (fst (bk_reader s (bk_blockTap s)))])"
  using assms by (cases ty) (simp add: bk_read_def bk_reader_def Let_def split_beta)

lemma bk_read_stall:
  assumes "length (buf (bk_blockTap s)) \<le> pos (bk_blockTap s)" and "fst (oq_pop (bk_queue s)) = None"
  shows "bk_read s =
     (if bk_finished s then (s\<lparr> bk_needPush := False \<rparr>, [PushNull])
      else (s\<lparr> bk_needPush := True \<rparr>, []))"
proof -
  have "oq_pop (bk_queue s) = (None, bk_queue s)"
    using assms(2) by (auto simp: oq_pop_def split: list.splits if_splits)
  then show ?thesis using assms(1) by (simp add: bk_read_def Let_def)
qed

lemma bk_read_pop:
  assumes "length (buf (bk_blockTap s)) \<le> pos (bk_blockTap s)"
    and "oq_pop (bk_queue s) = (Some d, q)" and "bd_cb d = Some c" and "bk_type s = Some ty"
  shows "bk_read s =
     ((fst (bk_chunkCb (s\<lparr> bk_needPush := False, bk_queue := q \<rparr>) c))
        \<lparr> bk_blockTap := snd (bk_reader s \<lparr> buf = bd_buf d, pos = 0 \<rparr>) \<rparr>,
      snd (bk_chunkCb (s\<lparr> bk_needPush := False, bk_queue := q \<rparr>) c)
        @ [Push (fst (bk_reader s \<lparr> buf = bd_buf d, pos = 0 \<rparr>))])"
  using assms by (cases ty) (simp add: bk_read_def bk_reader_def Let_def split_beta bk_chunkCb_def)

lemma oq_pop_Some:
  assumes "oq_pop q = (Some d, q')"
  shows "\<exists>xs. oq_items q = d # xs \<and> \<not> js_less (Num (oq_index q)) (bd_index d)
            \<and> q' = \<lparr> oq_index = oq_index q + 1, oq_items = xs \<rparr>"
  using assms by (cases "oq_items q") (auto simp: oq_pop_def split: if_splits)

lemma bk_reader_cong:
  "bk_type s' = bk_type s \<Longrightarrow> bk_decode s' = bk_decode s \<Longrightarrow> bk_reader s' = bk_reader s"
  by (simp add: bk_reader_def split: option.split)

lemma take_job_Some:
  "take_job k js = Some (j, js') \<Longrightarrow> bc_index (fst j) = Num k \<and> set js = insert j (set js')"
proof (induction js arbitrary: js')
  case Nil
  then show ?case by simp
next
  case (Cons a js)
  show ?case
  proof (cases "bc_index (fst a) = Num k")
    case True
    with Cons.prems show ?thesis by auto
  next
    case False
    with Cons.prems obtain r where r: "take_job k js = Some (j, r)" "js' = a # r"
      by (auto split: option.splits)
    from Cons.IH[OF r(1)] r(2) show ?thesis by auto
  qed
qed

lemma bk_loop_unfold:
  "bk_loop s t cb =
     (case tryReadBlock t of
        (None, t1) \<Rightarrow> (s\<lparr> bk_tap := t1 \<rparr>, [], True)
      | (Some blk, t1) \<Rightarrow>
          if bk_syncMarker s \<noteq> Some (b_sync blk)
          then (s\<lparr> bk_tap := t1 \<rparr>, [EmitError ''invalid sync marker''], False)
          else (let (s3, ev) = bk_dispatch s blk cb;
                    (s4, ev', ok) = bk_loop s3 t1 cb
                in (s4, ev @ ev', ok)))"
  by (subst bk_loop.simps) (simp add: bk_dispatch_def Let_def split_beta split: prod.splits option.splits)

lemma bk_dispatch_eq:
  assumes "bk_decompress s = Some cd"
  shows "bk_dispatch s blk cb =
     (let cl = \<lparr> bc_index = fst (post_incr (bk_index s)), bc_count = 0, bc_cb = Some cb \<rparr>;
          s2 = s\<lparr> bk_nBlocks := (bk_nBlocks s)(cb := bk_nBlocks s cb + 1),
                  bk_index := snd (post_incr (bk_index s)) \<rparr>
      in if c_sync cd
         then (fst (bk_blockCallback s2 cl (c_apply cd (b_data blk))),
               CallCodec (b_data blk) # snd (bk_blockCallback s2 cl (c_apply cd (b_data blk))))
         else (s2\<lparr> bk_jobs := bk_jobs s @ [(cl, b_data blk)] \<rparr>, [CallCodec (b_data blk)]))"
  using assms
  by (simp add: bk_dispatch_def bk_createBlockCallback_def bk_call_decompress_def Let_def split_beta)

lemma bk_dispatch_ex:
  assumes "bk_decompress s = Some cd"
  shows "\<exists>i i'. bk_dispatch s blk cb =
     (let cl = \<lparr> bc_index = i, bc_count = 0, bc_cb = Some cb \<rparr>;
          s2 = s\<lparr> bk_nBlocks := (bk_nBlocks s)(cb := bk_nBlocks s cb + 1), bk_index := i' \<rparr>
      in if c_sync cd
         then (fst (bk_blockCallback s2 cl (c_apply cd (b_data blk))),
               CallCodec (b_data blk) # snd (bk_blockCallback s2 cl (c_apply cd (b_data blk))))
         else (s2\<lparr> bk_jobs := bk_jobs s @ [(cl, b_data blk)] \<rparr>, [CallCodec (b_data blk)]))"
  using bk_dispatch_eq[OF assms] by blast

lemma bk_writeChunk_eq:
  "bk_writeChunk s chunk cb =
     (if \<not> snd (snd (bk_chunk_loop s chunk cb))
      then (fst (bk_chunk_loop s chunk cb), fst (snd (bk_chunk_loop s chunk cb)))
      else (fst (bk_chunkCb (fst (bk_chunk_loop s chunk cb)) cb),
            fst (snd (bk_chunk_loop s chunk cb)) @ snd (bk_chunkCb (fst (bk_chunk_loop s chunk cb)) cb)))"
  by (simp add: bk_writeChunk_def bk_chunk_loop_def Let_def split_beta)

section \<open>Properties of BlockDecoder: what the steps leave alone\<close>

lemma codec_calls_append: "codec_calls (xs @ ys) = codec_calls xs @ codec_calls ys"
  by (induction xs rule: codec_calls.induct) simp_all

lemma bk_reader_config: "bk_config s' = bk_config s \<Longrightarrow> bk_reader s' = bk_reader s"
  by (auto simp: bk_config_def bk_reader_def split: option.splits)

lemma bk_chunkCb_config [simp]:
  "bk_config (fst (bk_chunkCb s c)) = bk_config s" "codec_calls (snd (bk_chunkCb s c)) = []"
  by (simp_all add: bk_config_def bk_chunkCb_def Let_def)

lemma bk_read_config:
  "bk_config (fst (bk_read s)) = bk_config s \<and> bk_tap (fst (bk_read s)) = bk_tap s
   \<and> bk_index (fst (bk_read s)) = bk_index s \<and> codec_calls (snd (bk_read s)) = []"
proof (cases "pos (bk_blockTap s) < length (buf (bk_blockTap s))")
  case True
  then show ?thesis
    by (auto simp: bk_read_def bk_config_def Let_def split_beta split: option.splits)
next
  case False
  then have ex: "length (buf (bk_blockTap s)) \<le> pos (bk_blockTap s)" by simp
  obtain o' q where p: "oq_pop (bk_queue s) = (o', q)" by (cases "oq_pop (bk_queue s)")
  show ?thesis
  proof (cases o')
    case None
    then have "fst (oq_pop (bk_queue s)) = None" using p by simp
    from bk_read_stall[OF ex this] show ?thesis by (simp add: bk_config_def)
  next
    case (Some d)
    let ?s1 = "s\<lparr> bk_needPush := False, bk_queue := q \<rparr>"
    let ?r = "(case bd_cb d of Some c' \<Rightarrow> bk_chunkCb ?s1 c'
               | None \<Rightarrow> (?s1, [EmitError ''TypeError: data.cb is not a function'']))"
    have r: "bk_config (fst ?r) = bk_config s" "bk_tap (fst ?r) = bk_tap s" "bk_index (fst ?r) = bk_index s"
      "codec_calls (snd ?r) = []"
      by (simp_all add: bk_config_def bk_chunkCb_def Let_def split: option.splits)
    have "bk_config (fst (bk_read s)) = bk_config (fst ?r) \<and> bk_tap (fst (bk_read s)) = bk_tap (fst ?r)
        \<and> bk_index (fst (bk_read s)) = bk_index (fst ?r)
        \<and> codec_calls (snd (bk_read s)) = codec_calls (snd ?r)"
      using ex p Some
      by (simp add: bk_read_def bk_config_def Let_def split_beta codec_calls_append split: option.splits)
    then show ?thesis using r by simp
  qed
qed

lemma bk_blockCallback_config:
  "bk_config (fst (bk_blockCallback s cl res)) = bk_config s
   \<and> bk_tap (fst (bk_blockCallback s cl res)) = bk_tap s
   \<and> bk_index (fst (bk_blockCallback s cl res)) = bk_index s
   \<and> codec_calls (snd (bk_blockCallback s cl res)) = []"
proof (cases res)
  case (Inl err)
  then show ?thesis
    by (simp add: bk_blockCallback_def split_beta bk_config_def bk_chunkCb_def Let_def split: option.splits)
next
  case (Inr d)
  let ?s2 = "s\<lparr> bk_queue := oq_push (bk_queue s)
                        \<lparr> bd_index = bc_index cl, bd_buf = d, bd_cb = bc_cb cl, bd_count = 0 \<rparr> \<rparr>"
  have e: "bk_blockCallback s cl res = (if bk_needPush ?s2 then bk_read ?s2 else (?s2, []))"
    using Inr by (simp add: bk_blockCallback_def Let_def)
  have "bk_config ?s2 = bk_config s" by (simp add: bk_config_def)
  then show ?thesis unfolding e using bk_read_config[of ?s2] by simp
qed

lemma bk_complete_config:
  "bk_config (fst (bk_complete s k)) = bk_config s \<and> bk_tap (fst (bk_complete s k)) = bk_tap s
   \<and> bk_index (fst (bk_complete s k)) = bk_index s \<and> codec_calls (snd (bk_complete s k)) = []"
proof (cases "bk_decompress s")
  case None
  then show ?thesis by (simp add: bk_complete_def)
next
  case (Some cd)
  show ?thesis
  proof (cases "take_job k (bk_jobs s)")
    case None
    then show ?thesis using Some by (simp add: bk_complete_def)
  next
    case (Some r)
    then obtain cl b js where tj: "take_job k (bk_jobs s) = Some ((cl, b), js)" by (cases r) auto
    have "bk_config (s\<lparr> bk_jobs := js \<rparr>) = bk_config s" by (simp add: bk_config_def)
    then show ?thesis
      using \<open>bk_decompress s = Some cd\<close> tj bk_blockCallback_config[of "s\<lparr> bk_jobs := js \<rparr>" cl "c_apply cd b"]
      by (simp add: bk_complete_def)
  qed
qed

lemma bk_finish_config:
  "bk_config (fst (bk_finish s)) = bk_config s \<and> bk_tap (fst (bk_finish s)) = bk_tap s
   \<and> bk_index (fst (bk_finish s)) = bk_index s \<and> codec_calls (snd (bk_finish s)) = []"
proof -
  have "bk_config (s\<lparr> bk_finished := True \<rparr>) = bk_config s" by (simp add: bk_config_def)
  then show ?thesis using bk_read_config[of "s\<lparr> bk_finished := True \<rparr>"]
    by (simp add: bk_finish_def Let_def)
qed

lemma bk_dispatch_config:
  "bk_config (fst (bk_dispatch s blk cb)) = bk_config s
   \<and> codec_calls (snd (bk_dispatch s blk cb)) = (if bk_decompress s = None then [] else [b_data blk])"
proof (cases "bk_decompress s")
  case None
  then show ?thesis
    by (simp add: bk_dispatch_def bk_createBlockCallback_def bk_call_decompress_def Let_def split_beta
        bk_config_def)
next
  case (Some cd)
  let ?cl = "\<lparr> bc_index = fst (post_incr (bk_index s)), bc_count = 0, bc_cb = Some cb \<rparr>"
  let ?s2 = "s\<lparr> bk_nBlocks := (bk_nBlocks s)(cb := bk_nBlocks s cb + 1),
                  bk_index := snd (post_incr (bk_index s)) \<rparr>"
  have "bk_config ?s2 = bk_config s" by (simp add: bk_config_def)
  then show ?thesis
    unfolding bk_dispatch_eq[OF Some] using Some bk_blockCallback_config[of ?s2 ?cl "c_apply cd (b_data blk)"]
    by (simp add: Let_def bk_config_def)
qed

lemma bk_loop_config:
  "bk_config (fst (bk_loop s t cb)) = bk_config s"
proof (induction s t cb rule: bk_loop.induct)
  case (1 s t cb)
  obtain ob t1 where tr: "tryReadBlock t = (ob, t1)" by (cases "tryReadBlock t")
  have base: "bk_config (s\<lparr> bk_tap := t1 \<rparr>) = bk_config s" by (simp add: bk_config_def)
  show ?case
  proof (cases ob)
    case None
    then show ?thesis using tr base by (subst bk_loop_unfold) simp
  next
    case (Some blk)
    show ?thesis
    proof (cases "bk_syncMarker s \<noteq> Some (b_sync blk)")
      case True
      then show ?thesis using tr Some base by (subst bk_loop_unfold) simp
    next
      case False
      obtain s3 ev where d: "bk_dispatch s blk cb = (s3, ev)" by (cases "bk_dispatch s blk cb")
      have c3: "bk_config s3 = bk_config s" using bk_dispatch_config[of s blk cb] d by simp
      obtain cl s2 where cc: "bk_createBlockCallback (s\<lparr> bk_nBlocks := (bk_nBlocks s)(cb := bk_nBlocks s cb + 1) \<rparr>) cb = (cl, s2)"
        by (cases "bk_createBlockCallback (s\<lparr> bk_nBlocks := (bk_nBlocks s)(cb := bk_nBlocks s cb + 1) \<rparr>) cb")
      have dd: "bk_call_decompress s2 (b_data blk) cl = (s3, ev)"
        using d cc by (simp add: bk_dispatch_def Let_def)
      note ih = "1.IH"[OF tr[symmetric] Some False refl refl cc[symmetric] refl dd[symmetric]]
      have "bk_loop s t cb = (fst (bk_loop s3 t1 cb), ev @ fst (snd (bk_loop s3 t1 cb)), snd (snd (bk_loop s3 t1 cb)))"
        using tr Some False d by (subst bk_loop_unfold) (simp add: split_beta)
      then show ?thesis using ih c3 by simp
    qed
  qed
qed

lemma bk_writeChunk_config:
  "bk_config (fst (bk_writeChunk s chunk cb)) = bk_config s"
proof -
  let ?t = "\<lparr> buf = drop (pos (bk_tap s)) (buf (bk_tap s)) @ chunk, pos = 0 \<rparr>"
  have "bk_config (s\<lparr> bk_tap := ?t, bk_nBlocks := (bk_nBlocks s)(cb := 1) \<rparr>) = bk_config s"
    by (simp add: bk_config_def)
  then have "bk_config (fst (bk_chunk_loop s chunk cb)) = bk_config s"
    using bk_loop_config[of "s\<lparr> bk_tap := ?t, bk_nBlocks := (bk_nBlocks s)(cb := 1) \<rparr>" ?t cb]
    by (simp add: bk_chunk_loop_def Let_def)
  then show ?thesis by (simp add: bk_writeChunk_eq)
qed

lemma bk_step_config:
  assumes "bk_started s"
  shows "bk_config (fst (bk_step ct s a)) = bk_config s"
  using assms bk_read_config[of s] bk_finish_config[of s] bk_complete_config[of s]
    bk_writeChunk_config[of s]
  by (cases a) (simp_all add: bk_write_def)

lemma bk_run_config:
  assumes "bk_started s"
  shows "bk_config (fst (bk_run ct s acts)) = bk_config s"
  using assms
proof (induction acts arbitrary: s)
  case Nil
  then show ?case by simp
next
  case (Cons a acts)
  have c1: "bk_config (fst (bk_step ct s a)) = bk_config s" by (rule bk_step_config[OF Cons.prems])
  then have "bk_started (fst (bk_step ct s a))" using Cons.prems by (simp add: bk_config_def)
  from Cons.IH[OF this] c1 show ?case by (simp add: split_beta)
qed

section \<open>Properties of BlockDecoder: the order of the records\<close>

lemma bk_foretold_Nil [simp]: "bk_foretold cd D n []"
  by (simp add: bk_foretold_def)

lemma bk_foretold_Cons:
  "bk_foretold cd D n (b # bs) \<longleftrightarrow> D n = result_opt (c_apply cd b) \<and> bk_foretold cd D (n + 1) bs"
proof
  assume a: "bk_foretold cd D n (b # bs)"
  have "D n = result_opt (c_apply cd b)" using a unfolding bk_foretold_def by fastforce
  moreover have "D (n + 1 + j) = result_opt (c_apply cd (bs ! j))" if "j < length bs" for j
    using a[unfolded bk_foretold_def, rule_format, of "Suc j"] that by simp
  ultimately show "D n = result_opt (c_apply cd b) \<and> bk_foretold cd D (n + 1) bs"
    by (simp add: bk_foretold_def)
next
  assume a: "D n = result_opt (c_apply cd b) \<and> bk_foretold cd D (n + 1) bs"
  show "bk_foretold cd D n (b # bs)"
    unfolding bk_foretold_def
  proof (intro allI impI)
    fix j assume "j < length (b # bs)"
    then show "D (n + j) = result_opt (c_apply cd ((b # bs) ! j))"
      using a by (cases j) (simp_all add: bk_foretold_def)
  qed
qed

lemma bk_foretold_append:
  "bk_foretold cd D n (xs @ ys) \<longleftrightarrow> bk_foretold cd D n xs \<and> bk_foretold cd D (n + length xs) ys"
proof (induction xs arbitrary: n)
  case Nil
  then show ?case by simp
next
  case (Cons x xs)
  show ?case using Cons[of "n + 1"] by (simp add: bk_foretold_Cons)
qed

lemma bk_tracked_pop:
  assumes "bk_tracked cd D k n (d # xs) js" and "\<not> js_less (Num k) (bd_index d)"
  shows "bd_index d = Num k \<and> D k = Some (bd_buf d) \<and> bk_tracked cd D (k + 1) n xs js"
proof -
  from assms(1) obtain i where i: "bd_index d = Num i" "k \<le> i" "i < n" "D i = Some (bd_buf d)"
    unfolding bk_tracked_def by auto
  with assms(2) have ik: "i = k" by simp
  have dist: "distinct (map bd_index (d # xs) @ map (\<lambda>j. bc_index (fst j)) js)"
    using assms(1) by (simp add: bk_tracked_def)
  have nx: "bd_index x \<noteq> Num k" if "x \<in> set xs" for x using dist that i(1) ik by force
  have nj: "bc_index (fst j) \<noteq> Num k" if "j \<in> set js" for j using dist that i(1) ik by force
  have "bk_tracked cd D (k + 1) n xs js"
    unfolding bk_tracked_def
  proof (intro conjI)
    show "k + 1 \<le> n" using i ik by simp
    show "\<forall>x\<in>set xs. \<exists>i. bd_index x = Num i \<and> k + 1 \<le> i \<and> i < n \<and> D i = Some (bd_buf x)"
    proof
      fix x assume x: "x \<in> set xs"
      with assms(1) obtain i' where "bd_index x = Num i'" "k \<le> i'" "i' < n" "D i' = Some (bd_buf x)"
        unfolding bk_tracked_def by auto
      with nx[OF x] show "\<exists>i. bd_index x = Num i \<and> k + 1 \<le> i \<and> i < n \<and> D i = Some (bd_buf x)"
        by (intro exI[of _ i']) auto
    qed
    show "\<forall>j\<in>set js. \<exists>i. bc_index (fst j) = Num i \<and> k + 1 \<le> i \<and> i < n
            \<and> D i = result_opt (c_apply cd (snd j))"
    proof
      fix j assume j: "j \<in> set js"
      with assms(1) obtain i' where "bc_index (fst j) = Num i'" "k \<le> i'" "i' < n"
        "D i' = result_opt (c_apply cd (snd j))"
        unfolding bk_tracked_def by blast
      with nj[OF j] show "\<exists>i. bc_index (fst j) = Num i \<and> k + 1 \<le> i \<and> i < n
            \<and> D i = result_opt (c_apply cd (snd j))"
        by (intro exI[of _ i']) auto
    qed
    show "distinct (map bd_index xs @ map (\<lambda>j. bc_index (fst j)) js)" using dist by simp
    show "\<forall>i. k + 1 \<le> i \<and> i < n \<and> D i \<noteq> None \<longrightarrow>
            (\<exists>x\<in>set xs. bd_index x = Num i) \<or> (\<exists>j\<in>set js. bc_index (fst j) = Num i)"
    proof (intro allI impI)
      fix i' assume a: "k + 1 \<le> i' \<and> i' < n \<and> D i' \<noteq> None"
      with assms(1) have "(\<exists>x\<in>set (d # xs). bd_index x = Num i') \<or> (\<exists>j\<in>set js. bc_index (fst j) = Num i')"
        unfolding bk_tracked_def by auto
      then show "(\<exists>x\<in>set xs. bd_index x = Num i') \<or> (\<exists>j\<in>set js. bc_index (fst j) = Num i')"
        using a i(1) ik by auto
    qed
  qed
  then show ?thesis using i ik by simp
qed

lemma bk_tracked_cong:
  assumes "bk_tracked cd D k n xs js" and "set js' = set js"
    and "distinct (map (\<lambda>j. bc_index (fst j)) js')"
  shows "bk_tracked cd D k n xs js'"
proof -
  have "distinct (map bd_index xs @ map (\<lambda>j. bc_index (fst j)) js')"
    using assms unfolding bk_tracked_def by auto
  then show ?thesis using assms(1,2) unfolding bk_tracked_def by simp
qed

lemma take_job_distinct:
  "take_job k js = Some (j, js') \<Longrightarrow> distinct (map f js) \<Longrightarrow> distinct (map f (j # js'))"
proof (induction js arbitrary: js')
  case Nil
  then show ?case by simp
next
  case (Cons a js)
  show ?case
  proof (cases "bc_index (fst a) = Num k")
    case True
    with Cons.prems show ?thesis by auto
  next
    case False
    with Cons.prems obtain r where r: "take_job k js = Some (j, r)" "js' = a # r"
      by (auto split: option.splits)
    from Cons.IH[OF r(1)] Cons.prems(2) have d: "distinct (map f (j # r))" by simp
    from take_job_Some[OF r(1)] have s: "set js = insert j (set r)" by simp
    have "f a \<notin> f ` set js" using Cons.prems(2) by simp
    then show ?thesis using d s r(2) by auto
  qed
qed

lemma bk_tracked_take_job:
  assumes "bk_tracked cd D k n xs js" and "take_job kk js = Some (j, js')"
  shows "bk_tracked cd D k n xs (j # js')"
proof -
  have "distinct (map (\<lambda>j. bc_index (fst j)) js)" using assms(1) by (simp add: bk_tracked_def)
  from take_job_distinct[OF assms(2) this] take_job_Some[OF assms(2)]
  show ?thesis by (intro bk_tracked_cong[OF assms(1)]) simp_all
qed

lemma distinct_oq_insert:
  "distinct (map bd_index (oq_insert x xs)) \<longleftrightarrow> bd_index x \<notin> bd_index ` set xs \<and> distinct (map bd_index xs)"
  by (induction xs) auto

lemma bk_tracked_failed:
  assumes "bk_tracked cd D k n xs (j # js)" and "c_apply cd (snd j) = Inl e"
  shows "bk_tracked cd D k n xs js"
proof -
  from assms(1) obtain i where i: "bc_index (fst j) = Num i" "D i = result_opt (c_apply cd (snd j))"
    unfolding bk_tracked_def by auto
  then have Dn: "D i = None" using assms(2) by (simp add: result_opt_def)
  show ?thesis
    unfolding bk_tracked_def
  proof (intro conjI)
    show "k \<le> n" using assms(1) by (simp add: bk_tracked_def)
    show "\<forall>x\<in>set xs. \<exists>i. bd_index x = Num i \<and> k \<le> i \<and> i < n \<and> D i = Some (bd_buf x)"
      using assms(1) by (simp add: bk_tracked_def)
    show "\<forall>j\<in>set js. \<exists>i. bc_index (fst j) = Num i \<and> k \<le> i \<and> i < n \<and> D i = result_opt (c_apply cd (snd j))"
      using assms(1) by (simp add: bk_tracked_def)
    show "distinct (map bd_index xs @ map (\<lambda>j. bc_index (fst j)) js)"
      using assms(1) by (simp add: bk_tracked_def)
    show "\<forall>i. k \<le> i \<and> i < n \<and> D i \<noteq> None \<longrightarrow>
            (\<exists>x\<in>set xs. bd_index x = Num i) \<or> (\<exists>j\<in>set js. bc_index (fst j) = Num i)"
    proof (intro allI impI)
      fix i' assume a: "k \<le> i' \<and> i' < n \<and> D i' \<noteq> None"
      with assms(1) have "(\<exists>x\<in>set xs. bd_index x = Num i') \<or> (\<exists>j'\<in>set (j # js). bc_index (fst j') = Num i')"
        unfolding bk_tracked_def by blast
      moreover have "i' \<noteq> i" using a Dn by auto
      ultimately show "(\<exists>x\<in>set xs. bd_index x = Num i') \<or> (\<exists>j\<in>set js. bc_index (fst j) = Num i')"
        using i(1) by auto
    qed
  qed
qed

lemma bk_tracked_done:
  assumes "bk_tracked cd D k n xs (j # js)" and "c_apply cd (snd j) = Inr d"
    and "bd_index x = bc_index (fst j)" and "bd_buf x = d"
  shows "bk_tracked cd D k n (oq_insert x xs) js"
proof -
  from assms(1) obtain i where i: "bc_index (fst j) = Num i" "k \<le> i" "i < n"
    "D i = result_opt (c_apply cd (snd j))"
    unfolding bk_tracked_def by auto
  then have Ds: "D i = Some d" using assms(2) by (simp add: result_opt_def)
  have dist: "distinct (map bd_index xs @ map (\<lambda>j. bc_index (fst j)) (j # js))"
    using assms(1) by (simp add: bk_tracked_def)
  show ?thesis
    unfolding bk_tracked_def
  proof (intro conjI)
    show "k \<le> n" using assms(1) by (simp add: bk_tracked_def)
    show "\<forall>x\<in>set (oq_insert x xs). \<exists>i. bd_index x = Num i \<and> k \<le> i \<and> i < n \<and> D i = Some (bd_buf x)"
      using assms(1,3,4) i Ds by (auto simp: bk_tracked_def)
    show "\<forall>j\<in>set js. \<exists>i. bc_index (fst j) = Num i \<and> k \<le> i \<and> i < n \<and> D i = result_opt (c_apply cd (snd j))"
      using assms(1) by (simp add: bk_tracked_def)
    show "distinct (map bd_index (oq_insert x xs) @ map (\<lambda>j. bc_index (fst j)) js)"
      using dist assms(3) by (auto simp: distinct_oq_insert)
    show "\<forall>i. k \<le> i \<and> i < n \<and> D i \<noteq> None \<longrightarrow>
            (\<exists>x\<in>set (oq_insert x xs). bd_index x = Num i) \<or> (\<exists>j\<in>set js. bc_index (fst j) = Num i)"
    proof (intro allI impI)
      fix i' assume a: "k \<le> i' \<and> i' < n \<and> D i' \<noteq> None"
      with assms(1) have "(\<exists>x\<in>set xs. bd_index x = Num i') \<or> (\<exists>j'\<in>set (j # js). bc_index (fst j') = Num i')"
        unfolding bk_tracked_def by blast
      then show "(\<exists>x\<in>set (oq_insert x xs). bd_index x = Num i') \<or> (\<exists>j\<in>set js. bc_index (fst j) = Num i')"
        using assms(3) by auto
    qed
  qed
qed

lemma bk_tracked_new:
  assumes "bk_tracked cd D k n xs js" and "bc_index (fst j) = Num n"
    and "D n = result_opt (c_apply cd (snd j))"
  shows "bk_tracked cd D k (n + 1) xs (j # js)"
proof -
  have fresh: "bd_index x \<noteq> Num n" if "x \<in> set xs" for x
    using assms(1) that unfolding bk_tracked_def by fastforce
  have freshj: "bc_index (fst j') \<noteq> Num n" if "j' \<in> set js" for j'
    using assms(1) that unfolding bk_tracked_def by fastforce
  show ?thesis
    unfolding bk_tracked_def
  proof (intro conjI)
    show "k \<le> n + 1" using assms(1) by (simp add: bk_tracked_def)
    show "\<forall>x\<in>set xs. \<exists>i. bd_index x = Num i \<and> k \<le> i \<and> i < n + 1 \<and> D i = Some (bd_buf x)"
    proof
      fix x assume "x \<in> set xs"
      with assms(1) obtain i where "bd_index x = Num i" "k \<le> i" "i < n" "D i = Some (bd_buf x)"
        unfolding bk_tracked_def by blast
      then show "\<exists>i. bd_index x = Num i \<and> k \<le> i \<and> i < n + 1 \<and> D i = Some (bd_buf x)"
        by (intro exI[of _ i]) simp
    qed
    show "\<forall>j\<in>set (j # js). \<exists>i. bc_index (fst j) = Num i \<and> k \<le> i \<and> i < n + 1
            \<and> D i = result_opt (c_apply cd (snd j))"
    proof
      fix j' assume "j' \<in> set (j # js)"
      then consider "j' = j" | "j' \<in> set js" by auto
      then show "\<exists>i. bc_index (fst j') = Num i \<and> k \<le> i \<and> i < n + 1
            \<and> D i = result_opt (c_apply cd (snd j'))"
      proof cases
        case 1
        then show ?thesis using assms by (intro exI[of _ n]) (simp add: bk_tracked_def)
      next
        case 2
        with assms(1) obtain i where "bc_index (fst j') = Num i" "k \<le> i" "i < n"
          "D i = result_opt (c_apply cd (snd j'))" unfolding bk_tracked_def by blast
        then show ?thesis by (intro exI[of _ i]) simp
      qed
    qed
    show "distinct (map bd_index xs @ map (\<lambda>j. bc_index (fst j)) (j # js))"
      using assms(1,2) fresh freshj by (auto simp: bk_tracked_def)
    show "\<forall>i. k \<le> i \<and> i < n + 1 \<and> D i \<noteq> None \<longrightarrow>
            (\<exists>x\<in>set xs. bd_index x = Num i) \<or> (\<exists>j\<in>set (j # js). bc_index (fst j) = Num i)"
    proof (intro allI impI)
      fix i assume a: "k \<le> i \<and> i < n + 1 \<and> D i \<noteq> None"
      show "(\<exists>x\<in>set xs. bd_index x = Num i) \<or> (\<exists>j\<in>set (j # js). bc_index (fst j) = Num i)"
      proof (cases "i = n")
        case True
        then show ?thesis using assms(2) by simp
      next
        case False
        with a have "k \<le> i \<and> i < n \<and> D i \<noteq> None" by simp
        with assms(1) have "(\<exists>x\<in>set xs. bd_index x = Num i) \<or> (\<exists>j\<in>set js. bc_index (fst j) = Num i)"
          unfolding bk_tracked_def by blast
        then show ?thesis by auto
      qed
    qed
  qed
qed

lemma bk_keeps_same:
  assumes "bk_consistent rv cd D n s'" "bk_blockTap s' = bk_blockTap s"
    "oq_index (bk_queue s') = oq_index (bk_queue s)" "pushed ev = []" "codec_calls ev = []"
  shows "bk_keeps rv cd D n s (s', ev)"
  using assms by (simp add: bk_keeps_def)

lemma bk_keeps_trans:
  assumes "bk_keeps rv cd D n s (s1, ev1)" "bk_keeps rv cd D (n + length (codec_calls ev1)) s1 (s2, ev2)"
  shows "bk_keeps rv cd D n s (s2, ev1 @ ev2)"
proof -
  have r: "bk_consistent rv cd D (n + length (codec_calls (ev1 @ ev2))) s2"
    using assms(2) by (simp add: bk_keeps_def codec_calls_append add.assoc)
  have "pushed (ev1 @ ev2) @ in_order_reads rv D m (bk_blockTap s2) (oq_index (bk_queue s2))
      = in_order_reads rv D (m + length (pushed (ev1 @ ev2))) (bk_blockTap s) (oq_index (bk_queue s))" for m
  proof -
    have "pushed ev2 @ in_order_reads rv D m (bk_blockTap s2) (oq_index (bk_queue s2))
      = in_order_reads rv D (m + length (pushed ev2)) (bk_blockTap s1) (oq_index (bk_queue s1))"
      using assms(2) by (simp add: bk_keeps_def)
    moreover have "pushed ev1 @ in_order_reads rv D (m + length (pushed ev2)) (bk_blockTap s1) (oq_index (bk_queue s1))
      = in_order_reads rv D (m + length (pushed ev2) + length (pushed ev1)) (bk_blockTap s) (oq_index (bk_queue s))"
      using assms(1) by (simp add: bk_keeps_def)
    ultimately show ?thesis by (simp add: pushed_append ac_simps)
  qed
  then show ?thesis using r by (simp add: bk_keeps_def)
qed

lemma bk_consistent_cong:
  assumes "bk_consistent rv cd D n s" and "bk_index s' = bk_index s" and "bk_queue s' = bk_queue s"
    and "bk_jobs s' = bk_jobs s" and "bk_config s' = bk_config s" and "bk_blockTap s' = bk_blockTap s"
  shows "bk_consistent rv cd D n s'"
proof -
  have "bk_reader s' = bk_reader s" by (rule bk_reader_config[OF assms(5)])
  moreover have "bk_started s' = bk_started s" "bk_type s' = bk_type s" "bk_decompress s' = bk_decompress s"
    using assms(5) by (simp_all add: bk_config_def)
  ultimately show ?thesis using assms(1,2,3,4,6) by (simp add: bk_consistent_def)
qed

lemma bk_read_keeps:
  assumes c: "bk_consistent rv cd D n s"
  shows "bk_keeps rv cd D n s (bk_read s)"
proof -
  note cf = bk_read_config[of s]
  have tr: "bk_tracked cd D (oq_index (bk_queue s)) n (oq_items (bk_queue s)) (bk_jobs s)"
    and ix: "bk_index s = Num n" using c by (simp_all add: bk_consistent_def)
  show ?thesis
  proof (cases "pos (bk_blockTap s) < length (buf (bk_blockTap s))")
    case True
    then have st: "bk_started s" using c by (auto simp: bk_consistent_def split: if_splits)
    then obtain ty where ty: "bk_type s = Some ty" and rv: "bk_reader s = rv"
      using c by (auto simp: bk_consistent_def)
    have r: "bk_read s = (s\<lparr> bk_needPush := False, bk_blockTap := snd (rv (bk_blockTap s)) \<rparr>,
      [Push (fst (rv (bk_blockTap s)))])" using bk_read_tap[OF True ty] rv by simp
    have "bk_reader (s\<lparr> bk_needPush := False, bk_blockTap := snd (rv (bk_blockTap s)) \<rparr>) = bk_reader s"
      by (rule bk_reader_config) (simp add: bk_config_def)
    then have "bk_consistent rv cd D n (s\<lparr> bk_needPush := False, bk_blockTap := snd (rv (bk_blockTap s)) \<rparr>)"
      using c st by (simp add: bk_consistent_def)
    then show ?thesis unfolding r bk_keeps_def using True
      by (simp add: split_beta)
  next
    case False
    then have ex: "length (buf (bk_blockTap s)) \<le> pos (bk_blockTap s)" by simp
    obtain o' q where p: "oq_pop (bk_queue s) = (o', q)" by (cases "oq_pop (bk_queue s)")
    show ?thesis
    proof (cases o')
      case None
      then have "fst (oq_pop (bk_queue s)) = None" using p by simp
      from bk_read_stall[OF ex this]
      have r: "bk_read s = (s\<lparr> bk_needPush := \<not> bk_finished s \<rparr>, if bk_finished s then [PushNull] else [])"
        by simp
      have "bk_consistent rv cd D n (s\<lparr> bk_needPush := \<not> bk_finished s \<rparr>)"
        by (rule bk_consistent_cong[OF c]) (simp_all add: bk_config_def)
      then show ?thesis unfolding r by (intro bk_keeps_same) simp_all
    next
      case (Some d)
      with p have p': "oq_pop (bk_queue s) = (Some d, q)" by simp
      from oq_pop_Some[OF p'] obtain xs where xs: "oq_items (bk_queue s) = d # xs"
        "\<not> js_less (Num (oq_index (bk_queue s))) (bd_index d)"
        "q = \<lparr> oq_index = oq_index (bk_queue s) + 1, oq_items = xs \<rparr>" by blast
      from bk_tracked_pop[OF tr[unfolded xs(1)] xs(2)]
      have Dk: "D (oq_index (bk_queue s)) = Some (bd_buf d)"
        and tr': "bk_tracked cd D (oq_index (bk_queue s) + 1) n xs (bk_jobs s)" by simp_all
      have st: "bk_started s" using c xs(1) by (auto simp: bk_consistent_def split: if_splits)
      then obtain ty where ty: "bk_type s = Some ty" and rv: "bk_reader s = rv"
        using c by (auto simp: bk_consistent_def)
      let ?t = "snd (rv \<lparr> buf = bd_buf d, pos = 0 \<rparr>)"
      let ?v = "fst (rv \<lparr> buf = bd_buf d, pos = 0 \<rparr>)"
      have fields0: "bk_jobs (fst (bk_read s)) = bk_jobs s \<and>
          bk_queue (fst (bk_read s)) = q \<and> bk_blockTap (fst (bk_read s)) = ?t \<and>
          pushed (snd (bk_read s)) = [?v]"
      proof (cases "bd_cb d")
        case None
        then show ?thesis
          using ex p' ty rv by (cases ty) (simp add: bk_read_def bk_reader_def Let_def split_beta)
      next
        case (Some cb)
        show ?thesis
          unfolding bk_read_pop[OF ex p' Some ty] using rv by (simp add: pushed_append)
      qed
      then have fields: "bk_jobs (fst (bk_read s)) = bk_jobs s"
        "bk_queue (fst (bk_read s)) = q" "bk_blockTap (fst (bk_read s)) = ?t"
        "pushed (snd (bk_read s)) = [?v]" by simp_all
      have cfg: "bk_started (fst (bk_read s))" "bk_type (fst (bk_read s)) = bk_type s"
        "bk_decompress (fst (bk_read s)) = bk_decompress s" "bk_reader (fst (bk_read s)) = bk_reader s"
        using cf st bk_reader_config[of "fst (bk_read s)" s] by (simp_all add: bk_config_def)
      have cons: "bk_consistent rv cd D n (fst (bk_read s))"
        unfolding bk_consistent_def using cf ix tr' c st cfg by (simp add: fields xs(3) bk_consistent_def)
      have "[?v] @ in_order_reads rv D m ?t (oq_index q)
            = in_order_reads rv D (m + 1) (bk_blockTap s) (oq_index (bk_queue s))" for m
        using ex Dk xs(3) by (simp add: split_beta)
      then show ?thesis unfolding bk_keeps_def using cons cf by (simp add: fields)
    qed
  qed
qed

lemma bk_blockCallback_keeps:
  assumes c: "bk_consistent rv cd D n (s\<lparr> bk_jobs := (cl, b) # bk_jobs s \<rparr>)" and st: "bk_started s"
  shows "bk_keeps rv cd D n s (bk_blockCallback s cl (c_apply cd b))"
proof -
  have "bk_reader (s\<lparr> bk_jobs := (cl, b) # bk_jobs s \<rparr>) = bk_reader s"
    by (rule bk_reader_config) (simp add: bk_config_def)
  then have tr: "bk_tracked cd D (oq_index (bk_queue s)) n (oq_items (bk_queue s)) ((cl, b) # bk_jobs s)"
    and ix: "bk_index s = Num n" and rv: "bk_reader s = rv" and ty: "bk_type s \<noteq> None"
    and dc: "bk_decompress s = Some cd"
    using c st by (simp_all add: bk_consistent_def)
  show ?thesis
  proof (cases "c_apply cd b")
    case (Inl err)
    let ?r = "(case bc_cb cl of Some cb \<Rightarrow> bk_chunkCb s cb | None \<Rightarrow> (s, []))"
    have e: "bk_blockCallback s cl (c_apply cd b) = (fst ?r, EmitError err # snd ?r)"
      using Inl by (simp add: bk_blockCallback_def split_beta)
    have f: "bk_index (fst ?r) = bk_index s" "bk_queue (fst ?r) = bk_queue s" "bk_jobs (fst ?r) = bk_jobs s"
      "bk_config (fst ?r) = bk_config s" "bk_blockTap (fst ?r) = bk_blockTap s"
      "pushed (snd ?r) = []" "codec_calls (snd ?r) = []"
      by (simp_all split: option.splits)
    from bk_tracked_failed[OF tr] Inl
    have "bk_tracked cd D (oq_index (bk_queue s)) n (oq_items (bk_queue s)) (bk_jobs s)" by simp
    then have "bk_consistent rv cd D n s" using ix rv ty dc st by (simp add: bk_consistent_def)
    then have "bk_consistent rv cd D n (fst ?r)" by (rule bk_consistent_cong) (simp_all add: f)
    then show ?thesis unfolding e by (intro bk_keeps_same) (simp_all add: f)
  next
    case (Inr d)
    let ?x = "\<lparr> bd_index = bc_index cl, bd_buf = d, bd_cb = bc_cb cl, bd_count = 0 \<rparr>"
    let ?s2 = "s\<lparr> bk_queue := oq_push (bk_queue s) ?x \<rparr>"
    have e: "bk_blockCallback s cl (c_apply cd b) = (if bk_needPush ?s2 then bk_read ?s2 else (?s2, []))"
      using Inr by (simp add: bk_blockCallback_def Let_def)
    have "bk_tracked cd D (oq_index (bk_queue s)) n (oq_insert ?x (oq_items (bk_queue s))) (bk_jobs s)"
      by (rule bk_tracked_done[OF tr]) (simp_all add: Inr)
    moreover have "bk_reader ?s2 = bk_reader s" by (rule bk_reader_config) (simp add: bk_config_def)
    ultimately have c2: "bk_consistent rv cd D n ?s2"
      using ix rv ty dc st by (simp add: bk_consistent_def oq_push_def)
    have k2: "bk_keeps rv cd D n s (?s2, [])"
      using c2 by (intro bk_keeps_same) (simp_all add: oq_push_def)
    show ?thesis
    proof (cases "bk_needPush ?s2")
      case True
      obtain s3 ev3 where r: "bk_read ?s2 = (s3, ev3)" by (cases "bk_read ?s2")
      from bk_read_keeps[OF c2] r have "bk_keeps rv cd D n ?s2 (s3, ev3)" by simp
      with bk_keeps_trans[OF k2, of s3 ev3] show ?thesis unfolding e using True r by simp
    next
      case False
      then show ?thesis unfolding e using k2 by simp
    qed
  qed
qed

lemma bk_complete_keeps:
  assumes c: "bk_consistent rv cd D n s"
  shows "bk_keeps rv cd D n s (bk_complete s k)"
proof (cases "take_job k (bk_jobs s)")
  case None
  then have "bk_complete s k = (s, [])" by (simp add: bk_complete_def split: option.split)
  then show ?thesis using c by (simp add: bk_keeps_def)
next
  case (Some r)
  then obtain cl b js where tj: "take_job k (bk_jobs s) = Some ((cl, b), js)" by (cases r) auto
  then have "bk_jobs s \<noteq> []" by auto
  then have st: "bk_started s" using c by (auto simp: bk_consistent_def split: if_splits)
  then have dc: "bk_decompress s = Some cd" using c by (simp add: bk_consistent_def)
  let ?s1 = "s\<lparr> bk_jobs := js \<rparr>"
  have bc: "bk_complete s k = bk_blockCallback ?s1 cl (c_apply cd b)"
    using tj dc by (simp add: bk_complete_def)
  have "bk_tracked cd D (oq_index (bk_queue s)) n (oq_items (bk_queue s)) ((cl, b) # js)"
    using c by (intro bk_tracked_take_job[OF _ tj]) (simp add: bk_consistent_def)
  moreover have "bk_reader (?s1\<lparr> bk_jobs := (cl, b) # bk_jobs ?s1 \<rparr>) = bk_reader s"
    by (rule bk_reader_config) (simp add: bk_config_def)
  ultimately have c1: "bk_consistent rv cd D n (?s1\<lparr> bk_jobs := (cl, b) # bk_jobs ?s1 \<rparr>)"
    using c st by (simp add: bk_consistent_def)
  have "bk_keeps rv cd D n ?s1 (bk_blockCallback ?s1 cl (c_apply cd b))"
    by (rule bk_blockCallback_keeps[OF c1]) (simp add: st)
  then show ?thesis unfolding bc by (simp add: bk_keeps_def)
qed

lemma bk_finish_keeps:
  assumes c: "bk_consistent rv cd D n s"
  shows "bk_keeps rv cd D n s (bk_finish s)"
proof -
  let ?s = "s\<lparr> bk_finished := True \<rparr>"
  have c1: "bk_consistent rv cd D n ?s" by (rule bk_consistent_cong[OF c]) (simp_all add: bk_config_def)
  then have k1: "bk_keeps rv cd D n s (?s, [])" by (intro bk_keeps_same) simp_all
  show ?thesis
  proof (cases "bk_needPush s")
    case True
    obtain s3 ev3 where r: "bk_read ?s = (s3, ev3)" by (cases "bk_read ?s")
    from bk_read_keeps[OF c1] r have "bk_keeps rv cd D n ?s (s3, ev3)" by simp
    with bk_keeps_trans[OF k1, of s3 ev3] show ?thesis using True r by (simp add: bk_finish_def)
  next
    case False
    then show ?thesis using k1 by (simp add: bk_finish_def)
  qed
qed

lemma bk_dispatch_keeps:
  assumes c: "bk_consistent rv cd D n s" and st: "bk_started s"
    and Dn: "D n = result_opt (c_apply cd (b_data blk))"
  shows "bk_keeps rv cd D n s (bk_dispatch s blk cb)"
proof -
  have tr: "bk_tracked cd D (oq_index (bk_queue s)) n (oq_items (bk_queue s)) (bk_jobs s)"
    and ix: "bk_index s = Num n" and rv: "bk_reader s = rv" and ty: "bk_type s \<noteq> None"
    and dc: "bk_decompress s = Some cd"
    using c st by (simp_all add: bk_consistent_def)
  let ?cl = "\<lparr> bc_index = Num n, bc_count = 0, bc_cb = Some cb \<rparr>"
  let ?s2 = "s\<lparr> bk_nBlocks := (bk_nBlocks s)(cb := bk_nBlocks s cb + 1), bk_index := Num (n + 1) \<rparr>"
  have d: "bk_dispatch s blk cb =
      (if c_sync cd
         then (fst (bk_blockCallback ?s2 ?cl (c_apply cd (b_data blk))),
               CallCodec (b_data blk) # snd (bk_blockCallback ?s2 ?cl (c_apply cd (b_data blk))))
         else (?s2\<lparr> bk_jobs := bk_jobs s @ [(?cl, b_data blk)] \<rparr>, [CallCodec (b_data blk)]))"
    unfolding bk_dispatch_eq[OF dc] by (simp add: ix Let_def)
  have tn: "bk_tracked cd D (oq_index (bk_queue s)) (n + 1) (oq_items (bk_queue s)) ((?cl, b_data blk) # bk_jobs s)"
    by (rule bk_tracked_new[OF tr]) (simp_all add: Dn)
  have r2: "bk_reader (?s2\<lparr> bk_jobs := js \<rparr>) = bk_reader s" for js
    by (rule bk_reader_config) (simp add: bk_config_def)
  show ?thesis
  proof (cases "c_sync cd")
    case True
    have c2: "bk_consistent rv cd D (n + 1) (?s2\<lparr> bk_jobs := (?cl, b_data blk) # bk_jobs ?s2 \<rparr>)"
      using tn r2 rv ty dc st by (simp add: bk_consistent_def)
    have "bk_keeps rv cd D (n + 1) ?s2 (bk_blockCallback ?s2 ?cl (c_apply cd (b_data blk)))"
      by (rule bk_blockCallback_keeps[OF c2]) (simp add: st)
    moreover have "codec_calls (snd (bk_blockCallback ?s2 ?cl (c_apply cd (b_data blk)))) = []"
      using bk_blockCallback_config[of ?s2 ?cl "c_apply cd (b_data blk)"] by simp
    ultimately show ?thesis unfolding d using True by (simp add: bk_keeps_def)
  next
    case False
    have "distinct (map (\<lambda>j. bc_index (fst j)) ((?cl, b_data blk) # bk_jobs s))"
      using tn by (simp add: bk_tracked_def)
    then have "distinct (map (\<lambda>j. bc_index (fst j)) (bk_jobs s @ [(?cl, b_data blk)]))" by auto
    then have "bk_tracked cd D (oq_index (bk_queue s)) (n + 1) (oq_items (bk_queue s)) (bk_jobs s @ [(?cl, b_data blk)])"
      by (intro bk_tracked_cong[OF tn]) simp_all
    then have "bk_consistent rv cd D (n + 1) (?s2\<lparr> bk_jobs := bk_jobs s @ [(?cl, b_data blk)] \<rparr>)"
      using r2 rv ty dc st by (simp add: bk_consistent_def)
    then show ?thesis unfolding d using False by (simp add: bk_keeps_def)
  qed
qed

lemma bk_loop_keeps:
  assumes "bk_consistent rv cd D n s" and "bk_started s"
    and "bk_foretold cd D n (codec_calls (fst (snd (bk_loop s t cb))))"
  shows "bk_keeps rv cd D n s (fst (bk_loop s t cb), fst (snd (bk_loop s t cb)))"
  using assms
proof (induction s t cb arbitrary: n rule: bk_loop.induct)
  case (1 s t cb)
  obtain ob t1 where tr: "tryReadBlock t = (ob, t1)" by (cases "tryReadBlock t")
  have base: "bk_keeps rv cd D n s (s\<lparr> bk_tap := t1 \<rparr>, ev)" if "pushed ev = []" "codec_calls ev = []" for ev
  proof -
    have "bk_consistent rv cd D n (s\<lparr> bk_tap := t1 \<rparr>)"
      by (rule bk_consistent_cong[OF "1.prems"(1)]) (simp_all add: bk_config_def)
    then show ?thesis using that by (intro bk_keeps_same) simp_all
  qed
  show ?case
  proof (cases ob)
    case None
    then show ?thesis using tr base[of "[]"] by (subst (1 2) bk_loop_unfold) simp
  next
    case (Some blk)
    show ?thesis
    proof (cases "bk_syncMarker s \<noteq> Some (b_sync blk)")
      case True
      then show ?thesis using tr Some base[of "[EmitError ''invalid sync marker'']"]
        by (subst (1 2) bk_loop_unfold) simp
    next
      case False
      obtain s3 ev where d: "bk_dispatch s blk cb = (s3, ev)" by (cases "bk_dispatch s blk cb")
      have lp: "bk_loop s t cb = (fst (bk_loop s3 t1 cb), ev @ fst (snd (bk_loop s3 t1 cb)), snd (snd (bk_loop s3 t1 cb)))"
        using tr Some False d by (subst bk_loop_unfold) (simp add: split_beta)
      have dc: "bk_decompress s = Some cd" using "1.prems"(1,2) by (simp add: bk_consistent_def)
      have cv: "codec_calls ev = [b_data blk]" "bk_config s3 = bk_config s"
        using bk_dispatch_config[of s blk cb] d dc by simp_all
      have ft: "D n = result_opt (c_apply cd (b_data blk))"
        "bk_foretold cd D (n + 1) (codec_calls (fst (snd (bk_loop s3 t1 cb))))"
        using "1.prems"(3) unfolding lp by (simp_all add: codec_calls_append cv bk_foretold_Cons)
      have k1: "bk_keeps rv cd D n s (s3, ev)"
        using bk_dispatch_keeps[OF "1.prems"(1,2) ft(1), of cb] d by simp
      then have c3: "bk_consistent rv cd D (n + 1) s3" by (simp add: bk_keeps_def cv)
      have st3: "bk_started s3" using cv(2) "1.prems"(2) by (simp add: bk_config_def)
      obtain cl s2 where cc: "bk_createBlockCallback (s\<lparr> bk_nBlocks := (bk_nBlocks s)(cb := bk_nBlocks s cb + 1) \<rparr>) cb = (cl, s2)"
        by (cases "bk_createBlockCallback (s\<lparr> bk_nBlocks := (bk_nBlocks s)(cb := bk_nBlocks s cb + 1) \<rparr>) cb")
      have dd: "bk_call_decompress s2 (b_data blk) cl = (s3, ev)"
        using d cc by (simp add: bk_dispatch_def Let_def)
      have ih: "bk_keeps rv cd D (n + 1) s3 (fst (bk_loop s3 t1 cb), fst (snd (bk_loop s3 t1 cb)))"
        by (rule "1.IH"[OF tr[symmetric] Some False refl refl cc[symmetric] refl dd[symmetric] c3 st3 ft(2)])
      have "bk_keeps rv cd D n s (fst (bk_loop s3 t1 cb), ev @ fst (snd (bk_loop s3 t1 cb)))"
        using ih by (intro bk_keeps_trans[OF k1]) (simp add: cv)
      then show ?thesis unfolding lp by simp
    qed
  qed
qed

lemma bk_writeChunk_keeps:
  assumes c: "bk_consistent rv cd D n s" and st: "bk_started s"
    and ft: "bk_foretold cd D n (codec_calls (snd (bk_writeChunk s chunk cb)))"
  shows "bk_keeps rv cd D n s (bk_writeChunk s chunk cb)"
proof -
  let ?t = "\<lparr> buf = drop (pos (bk_tap s)) (buf (bk_tap s)) @ chunk, pos = 0 \<rparr>"
  let ?s1 = "s\<lparr> bk_tap := ?t, bk_nBlocks := (bk_nBlocks s)(cb := 1) \<rparr>"
  let ?l = "bk_chunk_loop s chunk cb"
  have l: "?l = bk_loop ?s1 ?t cb" by (simp add: bk_chunk_loop_def Let_def)
  have c1: "bk_consistent rv cd D n ?s1"
    by (rule bk_consistent_cong[OF c]) (simp_all add: bk_config_def)
  have cw: "codec_calls (snd (bk_writeChunk s chunk cb)) = codec_calls (fst (snd ?l))"
    by (simp add: bk_writeChunk_eq codec_calls_append)
  have kl: "bk_keeps rv cd D n ?s1 (fst ?l, fst (snd ?l))"
    unfolding l using ft unfolding cw l by (intro bk_loop_keeps[OF c1]) (simp_all add: st)
  then have kl': "bk_keeps rv cd D n s (fst ?l, fst (snd ?l))" by (simp add: bk_keeps_def)
  show ?thesis
  proof (cases "snd (snd ?l)")
    case False
    then show ?thesis using kl' by (simp add: bk_writeChunk_eq)
  next
    case True
    let ?n' = "n + length (codec_calls (fst (snd ?l)))"
    have cl: "bk_consistent rv cd D ?n' (fst ?l)" using kl' by (simp add: bk_keeps_def)
    have c': "bk_consistent rv cd D ?n' (fst (bk_chunkCb (fst ?l) cb))"
      by (rule bk_consistent_cong[OF cl]) simp_all
    have k2: "bk_keeps rv cd D ?n' (fst ?l) (fst (bk_chunkCb (fst ?l) cb), snd (bk_chunkCb (fst ?l) cb))"
      by (rule bk_keeps_same[OF c']) simp_all
    from bk_keeps_trans[OF kl' k2] show ?thesis using True by (simp add: bk_writeChunk_eq)
  qed
qed

lemma bk_decodeHeader_fields:
  "bk_index (fst (snd (bk_decodeHeader ct s))) = bk_index s
   \<and> bk_queue (fst (snd (bk_decodeHeader ct s))) = bk_queue s
   \<and> bk_jobs (fst (snd (bk_decodeHeader ct s))) = bk_jobs s
   \<and> bk_blockTap (fst (snd (bk_decodeHeader ct s))) = bk_blockTap s
   \<and> bk_started (fst (snd (bk_decodeHeader ct s))) = bk_started s
   \<and> pushed (snd (snd (bk_decodeHeader ct s))) = []
   \<and> codec_calls (snd (snd (bk_decodeHeader ct s))) = []
   \<and> (fst (bk_decodeHeader ct s) \<longrightarrow> bk_type (fst (snd (bk_decodeHeader ct s))) \<noteq> None
          \<and> bk_decompress (fst (snd (bk_decodeHeader ct s))) \<noteq> None)"
  by (simp add: bk_decodeHeader_def Let_def split_beta split: option.splits sum.splits)

lemma bk_write_keeps:
  assumes c: "bk_consistent rv cd D n s"
    and ft: "bk_foretold cd D n (codec_calls (snd (bk_write ct s chunk cb)))"
    and fin: "bk_started (fst (bk_write ct s chunk cb)) \<longrightarrow>
        bk_reader (fst (bk_write ct s chunk cb)) = rv \<and> bk_decompress (fst (bk_write ct s chunk cb)) = Some cd"
  shows "bk_keeps rv cd D n s (bk_write ct s chunk cb)"
proof (cases "bk_started s")
  case True
  then show ?thesis using bk_writeChunk_keeps[OF c True, of chunk cb] ft by (simp add: bk_write_def)
next
  case False
  let ?s1 = "s\<lparr> bk_tap := \<lparr> buf = buf (bk_tap s) @ chunk, pos = 0 \<rparr> \<rparr>"
  let ?h = "bk_decodeHeader ct ?s1"
  let ?s2 = "fst (snd ?h)"
  note hf = bk_decodeHeader_fields[of ct ?s1]
  have f: "bk_index ?s2 = bk_index s" "bk_queue ?s2 = bk_queue s" "bk_jobs ?s2 = bk_jobs s"
    "bk_blockTap ?s2 = bk_blockTap s" "\<not> bk_started ?s2" "pushed (snd (snd ?h)) = []"
    "codec_calls (snd (snd ?h)) = []"
    using hf False by simp_all
  have c2: "bk_consistent rv cd D n ?s2" using c False f by (auto simp: bk_consistent_def)
  show ?thesis
  proof (cases "fst ?h")
    case False
    then have w: "bk_write ct s chunk cb = (?s2, snd (snd ?h) @ [CallCb cb])"
      using \<open>\<not> bk_started s\<close> by (simp add: bk_write_def Let_def split_beta)
    show ?thesis unfolding w using c2 f by (intro bk_keeps_same) (simp_all add: pushed_append codec_calls_append)
  next
    case True
    let ?s3 = "?s2\<lparr> bk_started := True \<rparr>"
    let ?w = "bk_writeChunk ?s3 (new_Buffer 0) cb"
    have w: "bk_write ct s chunk cb = (fst ?w, snd (snd ?h) @ snd ?w)"
      using True \<open>\<not> bk_started s\<close> by (simp add: bk_write_def Let_def split_beta)
    have cw: "bk_config (fst ?w) = bk_config ?s3" by (rule bk_writeChunk_config)
    then have "bk_started (fst ?w)" by (simp add: bk_config_def)
    with fin have "bk_reader (fst ?w) = rv" "bk_decompress (fst ?w) = Some cd" unfolding w by simp_all
    then have r3: "bk_reader ?s3 = rv" "bk_decompress ?s3 = Some cd"
      using cw bk_reader_config[OF cw] by (simp_all add: bk_config_def)
    have ty: "bk_type ?s3 \<noteq> None" using hf True by simp
    have "bk_index ?s3 = Num n"
      "bk_tracked cd D (oq_index (bk_queue ?s3)) n (oq_items (bk_queue ?s3)) (bk_jobs ?s3)"
      using c2 by (simp_all add: bk_consistent_def)
    then have c3: "bk_consistent rv cd D n ?s3"
      using r3 ty unfolding bk_consistent_def by simp
    have k1: "bk_keeps rv cd D n s (?s3, snd (snd ?h))"
      using c3 f by (intro bk_keeps_same) simp_all
    have "bk_foretold cd D n (codec_calls (snd ?w))"
      using ft unfolding w by (simp add: codec_calls_append f)
    from bk_writeChunk_keeps[OF c3 _ this]
    have "bk_keeps rv cd D n ?s3 (fst ?w, snd ?w)" by simp
    with bk_keeps_trans[OF k1, of "fst ?w" "snd ?w"] show ?thesis unfolding w by (simp add: f)
  qed
qed

lemma bk_step_keeps:
  assumes c: "bk_consistent rv cd D n s"
    and ft: "bk_foretold cd D n (codec_calls (snd (bk_step ct s a)))"
    and fin: "bk_started (fst (bk_step ct s a)) \<longrightarrow>
        bk_reader (fst (bk_step ct s a)) = rv \<and> bk_decompress (fst (bk_step ct s a)) = Some cd"
  shows "bk_keeps rv cd D n s (bk_step ct s a)"
proof (cases a)
  case (BWrite chunk cb)
  then show ?thesis using bk_write_keeps[OF c, of ct chunk cb] ft fin by simp
next
  case BRead
  then show ?thesis using bk_read_keeps[OF c] by simp
next
  case BFinish
  then show ?thesis using bk_finish_keeps[OF c] by simp
next
  case (BComplete k)
  then show ?thesis using bk_complete_keeps[OF c] by simp
qed

lemma bk_run_keeps:
  assumes "bk_consistent rv cd D n s"
    and "bk_foretold cd D n (codec_calls (snd (bk_run ct s acts)))"
    and "bk_started (fst (bk_run ct s acts)) \<longrightarrow>
        bk_reader (fst (bk_run ct s acts)) = rv \<and> bk_decompress (fst (bk_run ct s acts)) = Some cd"
  shows "bk_keeps rv cd D n s (bk_run ct s acts)"
  using assms
proof (induction acts arbitrary: s n)
  case Nil
  then show ?case by (simp add: bk_keeps_def)
next
  case (Cons a acts)
  obtain s1 ev1 where st: "bk_step ct s a = (s1, ev1)" by (cases "bk_step ct s a")
  obtain s2 ev2 where rn: "bk_run ct s1 acts = (s2, ev2)" by (cases "bk_run ct s1 acts")
  have run: "bk_run ct s (a # acts) = (s2, ev1 @ ev2)" using st rn by simp
  have ft: "bk_foretold cd D n (codec_calls ev1)"
    "bk_foretold cd D (n + length (codec_calls ev1)) (codec_calls ev2)"
    using Cons.prems(2) unfolding run by (simp_all add: codec_calls_append bk_foretold_append)
  have fin1: "bk_started s1 \<longrightarrow> bk_reader s1 = rv \<and> bk_decompress s1 = Some cd"
  proof
    assume s1: "bk_started s1"
    from bk_run_config[OF s1, of ct acts] rn have cf: "bk_config s2 = bk_config s1" by simp
    then have "bk_started s2" using s1 by (simp add: bk_config_def)
    with Cons.prems(3) have "bk_reader s2 = rv" "bk_decompress s2 = Some cd" unfolding run by simp_all
    then show "bk_reader s1 = rv \<and> bk_decompress s1 = Some cd"
      using cf bk_reader_config[OF cf] by (simp add: bk_config_def)
  qed
  have k1: "bk_keeps rv cd D n s (s1, ev1)"
    using bk_step_keeps[OF Cons.prems(1), of ct a] ft(1) fin1 unfolding st by simp
  then have c1: "bk_consistent rv cd D (n + length (codec_calls ev1)) s1" by (simp add: bk_keeps_def)
  have "bk_keeps rv cd D (n + length (codec_calls ev1)) s1 (bk_run ct s1 acts)"
    using Cons.IH[OF c1] ft(2) Cons.prems(3) unfolding run rn by simp
  then show ?case unfolding run using bk_keeps_trans[OF k1] rn by simp
qed

lemma in_order_reads_drained:
  assumes "bk_consistent rv cd D n s" and "bk_drained s" and "\<forall>i\<ge>n. D i = None"
  shows "in_order_reads rv D m (bk_blockTap s) (oq_index (bk_queue s)) = []"
proof -
  have "D (oq_index (bk_queue s)) = None"
  proof (rule ccontr)
    assume a: "D (oq_index (bk_queue s)) \<noteq> None"
    then have "oq_index (bk_queue s) < n" using assms(3) by (meson not_le)
    with a assms(1) have "(\<exists>x\<in>set (oq_items (bk_queue s)). bd_index x = Num (oq_index (bk_queue s)))
          \<or> (\<exists>j\<in>set (bk_jobs s). bc_index (fst j) = Num (oq_index (bk_queue s)))"
      unfolding bk_consistent_def bk_tracked_def by blast
    then show False using assms(2) by (simp add: bk_drained_def)
  qed
  then show ?thesis using assms(2) by (cases m) (simp_all add: bk_drained_def)
qed


section \<open>Properties of BlockDecoder: what is submitted does not depend on the schedule\<close>

lemma bk_loop_written:
  assumes "bk_config s' = bk_config s"
  shows "bk_tap (fst (bk_loop s' t cb)) = bk_tap (fst (bk_loop s t cb))
       \<and> codec_calls (fst (snd (bk_loop s' t cb))) = codec_calls (fst (snd (bk_loop s t cb)))
       \<and> snd (snd (bk_loop s' t cb)) = snd (snd (bk_loop s t cb))"
  using assms
proof (induction s t cb arbitrary: s' rule: bk_loop.induct)
  case (1 s t cb)
  obtain ob t1 where tr: "tryReadBlock t = (ob, t1)" by (cases "tryReadBlock t")
  have sm: "bk_syncMarker s' = bk_syncMarker s" "bk_decompress s' = bk_decompress s"
    using "1.prems" by (simp_all add: bk_config_def)
  show ?case
  proof (cases ob)
    case None
    then show ?thesis using tr by (subst (1 2 3 4 5 6) bk_loop_unfold) simp
  next
    case (Some blk)
    show ?thesis
    proof (cases "bk_syncMarker s \<noteq> Some (b_sync blk)")
      case True
      then show ?thesis using tr Some sm by (subst (1 2 3 4 5 6) bk_loop_unfold) simp
    next
      case False
      obtain s3 ev where d: "bk_dispatch s blk cb = (s3, ev)" by (cases "bk_dispatch s blk cb")
      obtain s3' ev' where d': "bk_dispatch s' blk cb = (s3', ev')" by (cases "bk_dispatch s' blk cb")
      have c3: "bk_config s3' = bk_config s3" "codec_calls ev' = codec_calls ev"
        using bk_dispatch_config[of s blk cb] bk_dispatch_config[of s' blk cb] d d' "1.prems" sm
        by simp_all
      obtain cl s2 where cc: "bk_createBlockCallback (s\<lparr> bk_nBlocks := (bk_nBlocks s)(cb := bk_nBlocks s cb + 1) \<rparr>) cb = (cl, s2)"
        by (cases "bk_createBlockCallback (s\<lparr> bk_nBlocks := (bk_nBlocks s)(cb := bk_nBlocks s cb + 1) \<rparr>) cb")
      have dd: "bk_call_decompress s2 (b_data blk) cl = (s3, ev)"
        using d cc by (simp add: bk_dispatch_def Let_def)
      note ih = "1.IH"[OF tr[symmetric] Some False refl refl cc[symmetric] refl dd[symmetric] c3(1)]
      have l: "bk_loop s t cb = (fst (bk_loop s3 t1 cb), ev @ fst (snd (bk_loop s3 t1 cb)), snd (snd (bk_loop s3 t1 cb)))"
        using tr Some False d by (subst bk_loop_unfold) (simp add: split_beta)
      have l': "bk_loop s' t cb = (fst (bk_loop s3' t1 cb), ev' @ fst (snd (bk_loop s3' t1 cb)), snd (snd (bk_loop s3' t1 cb)))"
        using tr Some False d' sm by (subst bk_loop_unfold) (simp add: split_beta)
      show ?thesis unfolding l l' using ih c3(2) by (simp add: codec_calls_append)
    qed
  qed
qed

lemma bk_writeChunk_written:
  assumes "bk_config s' = bk_config s" and "bk_tap s' = bk_tap s"
  shows "bk_config (fst (bk_writeChunk s' chunk cb)) = bk_config (fst (bk_writeChunk s chunk cb))
       \<and> bk_tap (fst (bk_writeChunk s' chunk cb)) = bk_tap (fst (bk_writeChunk s chunk cb))
       \<and> codec_calls (snd (bk_writeChunk s' chunk cb)) = codec_calls (snd (bk_writeChunk s chunk cb))"
proof -
  let ?t = "\<lparr> buf = drop (pos (bk_tap s)) (buf (bk_tap s)) @ chunk, pos = 0 \<rparr>"
  let ?s1 = "s\<lparr> bk_tap := ?t, bk_nBlocks := (bk_nBlocks s)(cb := 1) \<rparr>"
  let ?s1' = "s'\<lparr> bk_tap := ?t, bk_nBlocks := (bk_nBlocks s')(cb := 1) \<rparr>"
  have l: "bk_chunk_loop s chunk cb = bk_loop ?s1 ?t cb" "bk_chunk_loop s' chunk cb = bk_loop ?s1' ?t cb"
    using assms(2) by (simp_all add: bk_chunk_loop_def Let_def)
  have "bk_config ?s1' = bk_config ?s1" using assms(1) by (simp add: bk_config_def)
  from bk_loop_written[OF this, of ?t cb]
  have w: "bk_tap (fst (bk_chunk_loop s' chunk cb)) = bk_tap (fst (bk_chunk_loop s chunk cb))"
    "codec_calls (fst (snd (bk_chunk_loop s' chunk cb))) = codec_calls (fst (snd (bk_chunk_loop s chunk cb)))"
    "snd (snd (bk_chunk_loop s' chunk cb)) = snd (snd (bk_chunk_loop s chunk cb))"
    unfolding l by simp_all
  have "bk_config (fst (bk_writeChunk s' chunk cb)) = bk_config (fst (bk_writeChunk s chunk cb))"
    using assms(1) by (simp add: bk_writeChunk_config)
  then show ?thesis using w by (simp add: bk_writeChunk_eq codec_calls_append)
qed

lemma bk_decodeHeader_written:
  assumes "bk_config s' = bk_config s" and "bk_tap s' = bk_tap s"
  shows "fst (bk_decodeHeader ct s') = fst (bk_decodeHeader ct s)
       \<and> bk_config (fst (snd (bk_decodeHeader ct s'))) = bk_config (fst (snd (bk_decodeHeader ct s)))
       \<and> bk_tap (fst (snd (bk_decodeHeader ct s'))) = bk_tap (fst (snd (bk_decodeHeader ct s)))"
proof -
  have f: "bk_type s' = bk_type s" "bk_decode s' = bk_decode s" "bk_decompress s' = bk_decompress s"
    "bk_started s' = bk_started s" "bk_syncMarker s' = bk_syncMarker s" "bk_codecs s' = bk_codecs s"
    using assms(1) by (simp_all add: bk_config_def)
  show ?thesis
    unfolding bk_decodeHeader_def Let_def split_beta bk_config_def assms(2) f
    by (simp add: f split: option.splits sum.splits)
qed

lemma bk_write_written:
  assumes "bk_config s' = bk_config s" and "bk_tap s' = bk_tap s"
  shows "bk_config (fst (bk_write ct s' chunk cb)) = bk_config (fst (bk_write ct s chunk cb))
       \<and> bk_tap (fst (bk_write ct s' chunk cb)) = bk_tap (fst (bk_write ct s chunk cb))
       \<and> codec_calls (snd (bk_write ct s' chunk cb)) = codec_calls (snd (bk_write ct s chunk cb))"
proof (cases "bk_started s")
  case True
  then have "bk_started s'" using assms(1) by (simp add: bk_config_def)
  then show ?thesis using True bk_writeChunk_written[OF assms] by (simp add: bk_write_def)
next
  case False
  then have ns: "\<not> bk_started s'" using assms(1) by (simp add: bk_config_def)
  let ?s1 = "s\<lparr> bk_tap := \<lparr> buf = buf (bk_tap s) @ chunk, pos = 0 \<rparr> \<rparr>"
  let ?s1' = "s'\<lparr> bk_tap := \<lparr> buf = buf (bk_tap s') @ chunk, pos = 0 \<rparr> \<rparr>"
  let ?h = "bk_decodeHeader ct ?s1"
  let ?h' = "bk_decodeHeader ct ?s1'"
  have "bk_config ?s1' = bk_config ?s1" "bk_tap ?s1' = bk_tap ?s1"
    using assms by (simp_all add: bk_config_def)
  from bk_decodeHeader_written[OF this, of ct]
  have h: "fst ?h' = fst ?h" "bk_config (fst (snd ?h')) = bk_config (fst (snd ?h))"
    "bk_tap (fst (snd ?h')) = bk_tap (fst (snd ?h))" by simp_all
  have cc: "codec_calls (snd (snd ?h)) = []" "codec_calls (snd (snd ?h')) = []"
    using bk_decodeHeader_fields[of ct ?s1] bk_decodeHeader_fields[of ct ?s1'] by simp_all
  show ?thesis
  proof (cases "fst ?h")
    case False
    then show ?thesis using h cc \<open>\<not> bk_started s\<close> ns
      by (simp add: bk_write_def Let_def split_beta codec_calls_append)
  next
    case True
    let ?s3 = "(fst (snd ?h))\<lparr> bk_started := True \<rparr>"
    let ?s3' = "(fst (snd ?h'))\<lparr> bk_started := True \<rparr>"
    have "bk_config ?s3' = bk_config ?s3" "bk_tap ?s3' = bk_tap ?s3"
      using h(2,3) by (simp_all add: bk_config_def)
    from bk_writeChunk_written[OF this, of "new_Buffer 0" cb] show ?thesis
      using True h(1) cc \<open>\<not> bk_started s\<close> ns
      by (simp add: bk_write_def Let_def split_beta codec_calls_append)
  qed
qed

lemma bk_step_unwritten:
  assumes "\<not> is_write a"
  shows "bk_config (fst (bk_step ct s a)) = bk_config s \<and> bk_tap (fst (bk_step ct s a)) = bk_tap s
       \<and> codec_calls (snd (bk_step ct s a)) = []"
  using assms bk_read_config[of s] bk_finish_config[of s] bk_complete_config[of s]
  by (cases a) simp_all

lemma bk_run_written:
  assumes "bk_config s' = bk_config s" and "bk_tap s' = bk_tap s"
  shows "bk_config (fst (bk_run ct s' (filter is_write acts))) = bk_config (fst (bk_run ct s acts))
       \<and> bk_tap (fst (bk_run ct s' (filter is_write acts))) = bk_tap (fst (bk_run ct s acts))
       \<and> codec_calls (snd (bk_run ct s' (filter is_write acts))) = codec_calls (snd (bk_run ct s acts))"
  using assms
proof (induction acts arbitrary: s s')
  case Nil
  then show ?case by simp
next
  case (Cons a acts)
  show ?case
  proof (cases "is_write a")
    case False
    from bk_step_unwritten[OF False, of ct s]
    have u: "bk_config (fst (bk_step ct s a)) = bk_config s" "bk_tap (fst (bk_step ct s a)) = bk_tap s"
      "codec_calls (snd (bk_step ct s a)) = []" by simp_all
    from Cons.IH[of s' "fst (bk_step ct s a)"] Cons.prems u(1,2)
    show ?thesis using False u(3) by (simp add: split_beta codec_calls_append)
  next
    case True
    then obtain chunk cb where a: "a = BWrite chunk cb" by (cases a) auto
    from bk_write_written[OF Cons.prems, of ct chunk cb]
    have w: "bk_config (fst (bk_step ct s' a)) = bk_config (fst (bk_step ct s a))"
      "bk_tap (fst (bk_step ct s' a)) = bk_tap (fst (bk_step ct s a))"
      "codec_calls (snd (bk_step ct s' a)) = codec_calls (snd (bk_step ct s a))"
      unfolding a by simp_all
    from Cons.IH[OF w(1,2)] show ?thesis using True w(3) by (simp add: split_beta codec_calls_append)
  qed
qed

lemma bk_run_same_writes:
  assumes "filter is_write acts' = filter is_write acts"
  shows "bk_config (fst (bk_run ct s acts')) = bk_config (fst (bk_run ct s acts))
       \<and> codec_calls (snd (bk_run ct s acts')) = codec_calls (snd (bk_run ct s acts))"
  using bk_run_written[of s s ct acts] bk_run_written[of s s ct acts'] assms by simp

lemma bk_step_phase:
  assumes "bk_started s \<longrightarrow> bk_decompress s \<noteq> None"
  shows "bk_started (fst (bk_step ct s a)) \<longrightarrow> bk_decompress (fst (bk_step ct s a)) \<noteq> None"
proof (cases "is_write a")
  case False
  from bk_step_unwritten[OF False, of ct s] assms show ?thesis by (simp add: bk_config_def)
next
  case True
  then obtain chunk cb where a: "a = BWrite chunk cb" by (cases a) auto
  show ?thesis
  proof (cases "bk_started s")
    case True
    from bk_step_config[OF True, of ct a] assms True show ?thesis by (simp add: bk_config_def)
  next
    case False
    let ?s1 = "s\<lparr> bk_tap := \<lparr> buf = buf (bk_tap s) @ chunk, pos = 0 \<rparr> \<rparr>"
    let ?h = "bk_decodeHeader ct ?s1"
    note hf = bk_decodeHeader_fields[of ct ?s1]
    show ?thesis
    proof (cases "fst ?h")
      case False
      then show ?thesis using hf \<open>\<not> bk_started s\<close> unfolding a
        by (simp add: bk_write_def Let_def split_beta)
    next
      case True
      have "bk_config (fst (bk_writeChunk ((fst (snd ?h))\<lparr> bk_started := True \<rparr>) (new_Buffer 0) cb))
          = bk_config ((fst (snd ?h))\<lparr> bk_started := True \<rparr>)" by (rule bk_writeChunk_config)
      then show ?thesis using hf True \<open>\<not> bk_started s\<close> unfolding a
        by (simp add: bk_write_def Let_def split_beta bk_config_def)
    qed
  qed
qed

lemma bk_run_phase:
  assumes "bk_started s \<longrightarrow> bk_decompress s \<noteq> None"
  shows "bk_started (fst (bk_run ct s acts)) \<longrightarrow> bk_decompress (fst (bk_run ct s acts)) \<noteq> None"
  using assms
proof (induction acts arbitrary: s)
  case Nil
  then show ?case by simp
next
  case (Cons a acts)
  from Cons.IH[OF bk_step_phase[OF Cons.prems, of ct a]] show ?case by (simp add: split_beta)
qed

lemma BlockDecoder_consistent: "bk_consistent rv cd D 0 (BlockDecoder decode codecs)"
  by (simp add: bk_consistent_def bk_tracked_def BlockDecoder_def OrderedQueue_def new_Buffer_def)

lemma bk_submitted_foretold:
  "bk_foretold (case bk_decompress s of Some c \<Rightarrow> c | None \<Rightarrow> \<lparr> c_apply = (\<lambda>b. Inl []), c_sync = True \<rparr>)
     (bk_submitted s ev) 0 (codec_calls ev)"
  by (simp add: bk_foretold_def bk_submitted_def result_opt_def split: option.splits)

lemma bk_run_from_start:
  fixes ct :: "'v type_parser"
  defines "cdof s \<equiv> (case bk_decompress s of Some c \<Rightarrow> c | None \<Rightarrow> \<lparr> c_apply = (\<lambda>b. Inl []), c_sync = True \<rparr>)"
  shows "bk_keeps (bk_reader (fst (bk_run ct (BlockDecoder decode codecs) acts)))
           (cdof (fst (bk_run ct (BlockDecoder decode codecs) acts)))
           (bk_submitted (fst (bk_run ct (BlockDecoder decode codecs) acts)) (snd (bk_run ct (BlockDecoder decode codecs) acts)))
           0 (BlockDecoder decode codecs) (bk_run ct (BlockDecoder decode codecs) acts)"
proof -
  let ?s0 = "BlockDecoder decode codecs :: 'v block_decoder"
  let ?r = "bk_run ct ?s0 acts"
  have "\<not> bk_started ?s0" by (simp add: BlockDecoder_def)
  then have ph: "bk_started (fst ?r) \<longrightarrow> bk_decompress (fst ?r) \<noteq> None"
    by (intro bk_run_phase) simp
  show ?thesis
  proof (rule bk_run_keeps[OF BlockDecoder_consistent])
    show "bk_foretold (cdof (fst ?r)) (bk_submitted (fst ?r) (snd ?r)) 0 (codec_calls (snd ?r))"
      unfolding cdof_def by (rule bk_submitted_foretold)
    show "bk_started (fst ?r) \<longrightarrow> bk_reader (fst ?r) = bk_reader (fst ?r)
        \<and> bk_decompress (fst ?r) = Some (cdof (fst ?r))"
      using ph by (auto simp: cdof_def)
  qed
qed

text \<open>Claim C2. Take any run of a decoder from its constructor: chunks written, reads of the
  consumer, the end of the input and completions of decompressions, in any order. The blocks
  are submitted to the codec in the order in which they stand in the chunks, whatever the
  schedule of the run: a run with the same writes makes the same calls of the codec, with the
  same reader. The records pushed are the first records of the reference sequence, the one
  read from the decompressed blocks in the order of their submission; once nothing is left
  in flight, queued or unread they are all of it. So two runs with the same writes that
  both come to that point, such as one whose decompressions complete in submission order and
  one whose decompressions complete in any other order, push the same records.\<close>

theorem BlockDecoder_order_preserved:
  "(let r = bk_run ct (BlockDecoder decode codecs) acts;
        rv = bk_reader (fst r);
        D = bk_submitted (fst r) (snd r);
        t0 = \<lparr> buf = [], pos = 0 \<rparr>
    in pushed (snd r) = in_order_reads rv D (length (pushed (snd r))) t0 0
       \<and> (\<forall>acts'. filter is_write acts' = filter is_write acts \<longrightarrow>
            bk_reader (fst (bk_run ct (BlockDecoder decode codecs) acts')) = rv
            \<and> bk_submitted (fst (bk_run ct (BlockDecoder decode codecs) acts'))
                 (snd (bk_run ct (BlockDecoder decode codecs) acts')) = D)
       \<and> (bk_drained (fst r) \<longrightarrow>
            (\<forall>m. in_order_reads rv D (m + length (pushed (snd r))) t0 0 = pushed (snd r))
          \<and> (\<forall>acts'. filter is_write acts' = filter is_write acts
                 \<and> bk_drained (fst (bk_run ct (BlockDecoder decode codecs) acts'))
                 \<longrightarrow> pushed (snd (bk_run ct (BlockDecoder decode codecs) acts')) = pushed (snd r))))"
proof -
  let ?s0 = "BlockDecoder decode codecs :: 'a block_decoder"
  let ?cdof = "\<lambda>s :: 'a block_decoder. (case bk_decompress s of Some c \<Rightarrow> c
        | None \<Rightarrow> \<lparr> c_apply = (\<lambda>b. Inl []), c_sync = True \<rparr>)"
  have t0: "bk_blockTap ?s0 = \<lparr> buf = [], pos = 0 \<rparr>" "oq_index (bk_queue ?s0) = 0"
    by (simp_all add: BlockDecoder_def OrderedQueue_def new_Buffer_def)
  have rel: "pushed (snd (bk_run ct ?s0 as))
       @ in_order_reads (bk_reader (fst (bk_run ct ?s0 as))) (bk_submitted (fst (bk_run ct ?s0 as)) (snd (bk_run ct ?s0 as)))
           m (bk_blockTap (fst (bk_run ct ?s0 as))) (oq_index (bk_queue (fst (bk_run ct ?s0 as))))
     = in_order_reads (bk_reader (fst (bk_run ct ?s0 as))) (bk_submitted (fst (bk_run ct ?s0 as)) (snd (bk_run ct ?s0 as)))
         (m + length (pushed (snd (bk_run ct ?s0 as)))) \<lparr> buf = [], pos = 0 \<rparr> 0" for as m
    using bk_run_from_start[of ct decode codecs as] unfolding bk_keeps_def t0 by simp
  have dr: "in_order_reads (bk_reader (fst (bk_run ct ?s0 as))) (bk_submitted (fst (bk_run ct ?s0 as)) (snd (bk_run ct ?s0 as)))
         (m + length (pushed (snd (bk_run ct ?s0 as)))) \<lparr> buf = [], pos = 0 \<rparr> 0
       = pushed (snd (bk_run ct ?s0 as))" if d: "bk_drained (fst (bk_run ct ?s0 as))" for as m
  proof -
    have c: "bk_consistent (bk_reader (fst (bk_run ct ?s0 as))) (?cdof (fst (bk_run ct ?s0 as)))
        (bk_submitted (fst (bk_run ct ?s0 as)) (snd (bk_run ct ?s0 as)))
        (0 + length (codec_calls (snd (bk_run ct ?s0 as)))) (fst (bk_run ct ?s0 as))"
      using bk_run_from_start[of ct decode codecs as] unfolding bk_keeps_def by simp
    have "\<forall>i\<ge>0 + length (codec_calls (snd (bk_run ct ?s0 as))).
        bk_submitted (fst (bk_run ct ?s0 as)) (snd (bk_run ct ?s0 as)) i = None"
      by (simp add: bk_submitted_def split: option.splits)
    from in_order_reads_drained[OF c d this] rel[of as m] show ?thesis by simp
  qed
  have same: "bk_reader (fst (bk_run ct ?s0 acts')) = bk_reader (fst (bk_run ct ?s0 acts))
      \<and> bk_submitted (fst (bk_run ct ?s0 acts')) (snd (bk_run ct ?s0 acts'))
        = bk_submitted (fst (bk_run ct ?s0 acts)) (snd (bk_run ct ?s0 acts))"
    if w: "filter is_write acts' = filter is_write acts" for acts'
  proof -
    from bk_run_same_writes[OF w, of ct ?s0]
    have cf: "bk_config (fst (bk_run ct ?s0 acts')) = bk_config (fst (bk_run ct ?s0 acts))"
      and cc: "codec_calls (snd (bk_run ct ?s0 acts')) = codec_calls (snd (bk_run ct ?s0 acts))"
      by simp_all
    have "bk_decompress (fst (bk_run ct ?s0 acts')) = bk_decompress (fst (bk_run ct ?s0 acts))"
      using cf by (simp add: bk_config_def)
    then have "bk_submitted (fst (bk_run ct ?s0 acts')) (snd (bk_run ct ?s0 acts'))
        = bk_submitted (fst (bk_run ct ?s0 acts)) (snd (bk_run ct ?s0 acts))"
      using cc by (intro ext) (simp add: bk_submitted_def split: option.splits)
    then show ?thesis using bk_reader_config[OF cf] by simp
  qed
  have two: "pushed (snd (bk_run ct ?s0 acts')) = pushed (snd (bk_run ct ?s0 acts))"
    if d: "bk_drained (fst (bk_run ct ?s0 acts))" and w: "filter is_write acts' = filter is_write acts"
      and d': "bk_drained (fst (bk_run ct ?s0 acts'))" for acts'
  proof -
    let ?L = "length (pushed (snd (bk_run ct ?s0 acts)))"
    let ?L' = "length (pushed (snd (bk_run ct ?s0 acts')))"
    from dr[OF d, of ?L'] dr[OF d', of ?L] same[OF w]
    show ?thesis by (simp add: add.commute)
  qed
  have one: "pushed (snd (bk_run ct ?s0 acts))
      = in_order_reads (bk_reader (fst (bk_run ct ?s0 acts))) (bk_submitted (fst (bk_run ct ?s0 acts)) (snd (bk_run ct ?s0 acts)))
         (length (pushed (snd (bk_run ct ?s0 acts)))) \<lparr> buf = [], pos = 0 \<rparr> 0"
    using rel[of acts 0] by simp
  show ?thesis
    unfolding Let_def
  proof (intro conjI allI impI)
    show "pushed (snd (bk_run ct ?s0 acts))
      = in_order_reads (bk_reader (fst (bk_run ct ?s0 acts))) (bk_submitted (fst (bk_run ct ?s0 acts)) (snd (bk_run ct ?s0 acts)))
         (length (pushed (snd (bk_run ct ?s0 acts)))) \<lparr> buf = [], pos = 0 \<rparr> 0" by (rule one)
  next
    fix acts' assume "filter is_write acts' = filter is_write acts"
    from same[OF this] show "bk_reader (fst (bk_run ct ?s0 acts')) = bk_reader (fst (bk_run ct ?s0 acts))"
      "bk_submitted (fst (bk_run ct ?s0 acts')) (snd (bk_run ct ?s0 acts'))
        = bk_submitted (fst (bk_run ct ?s0 acts)) (snd (bk_run ct ?s0 acts))" by simp_all
  next
    fix m assume "bk_drained (fst (bk_run ct ?s0 acts))"
    from dr[OF this] show "in_order_reads (bk_reader (fst (bk_run ct ?s0 acts))) (bk_submitted (fst (bk_run ct ?s0 acts)) (snd (bk_run ct ?s0 acts)))
         (m + length (pushed (snd (bk_run ct ?s0 acts)))) \<lparr> buf = [], pos = 0 \<rparr> 0
       = pushed (snd (bk_run ct ?s0 acts))" .
  next
    fix acts' assume d: "bk_drained (fst (bk_run ct ?s0 acts))"
      and a: "filter is_write acts' = filter is_write acts \<and> bk_drained (fst (bk_run ct ?s0 acts'))"
    from two[OF d] a show "pushed (snd (bk_run ct ?s0 acts')) = pushed (snd (bk_run ct ?s0 acts))" by simp
  qed
qed

section \<open>Properties of BlockDecoder: the write callback\<close>

declare bk_block_phase_def [simp]

lemma bk_counts_refl:
  "bk_block_phase s \<Longrightarrow> bk_nBlocks s c = int (bk_outstanding s c + k) \<Longrightarrow>
   bk_counts c k (bk_outstanding s c + k) (s, [])"
  by (auto simp: bk_counts_def)

lemma bk_counts_trans:
  assumes "bk_counts c k T (s1, ev1)" "bk_counts c k (bk_outstanding s1 c + k) (s2, ev2)"
  shows "bk_counts c k T (s2, ev1 @ ev2)"
  using assms by (auto simp: bk_counts_def split: if_splits)

lemma bk_chunkCb_events:
  "snd (bk_chunkCb s c) = (if bk_nBlocks s c = 1 then [CallCb c] else [])"
  by (simp add: bk_chunkCb_def Let_def)

lemma bk_outstanding_cong:
  "bk_jobs s' = bk_jobs s \<Longrightarrow> bk_queue s' = bk_queue s \<Longrightarrow> bk_outstanding s' c = bk_outstanding s c"
  by (simp add: bk_outstanding_def)

lemma bk_read_counts:
  assumes st: "bk_block_phase s" and pot: "bk_nBlocks s c = int (bk_outstanding s c + k)"
  shows "bk_counts c k (bk_outstanding s c + k) (bk_read s)"
proof (cases "pos (bk_blockTap s) < length (buf (bk_blockTap s))")
  case True
  have "bk_read s = (case bk_type s of
           None \<Rightarrow> (s\<lparr> bk_needPush := False \<rparr>, [EmitError ''TypeError: this._readValue is not a function''])
         | Some ty \<Rightarrow> (s\<lparr> bk_needPush := False, bk_blockTap := snd (bk_reader s (bk_blockTap s)) \<rparr>,
                       [Push (fst (bk_reader s (bk_blockTap s)))]))"
    using True bk_read_tap[OF True] by (auto simp: bk_read_def Let_def split: option.splits)
  then show ?thesis using st pot
    by (auto simp: bk_counts_def bk_outstanding_def split: option.splits)
next
  case False
  then have ex: "length (buf (bk_blockTap s)) \<le> pos (bk_blockTap s)" by simp
  obtain o' q where p: "oq_pop (bk_queue s) = (o', q)" by (cases "oq_pop (bk_queue s)")
  show ?thesis
  proof (cases o')
    case None
    then have "fst (oq_pop (bk_queue s)) = None" using p by simp
    from bk_read_stall[OF ex this] show ?thesis using st pot
      by (auto simp: bk_counts_def bk_outstanding_def)
  next
    case (Some d)
    with p have p': "oq_pop (bk_queue s) = (Some d, q)" by simp
    from oq_pop_Some[OF p'] obtain xs where xs: "oq_items (bk_queue s) = d # xs"
      "q = \<lparr> oq_index = oq_index (bk_queue s) + 1, oq_items = xs \<rparr>" by blast
    let ?s1 = "s\<lparr> bk_needPush := False, bk_queue := q \<rparr>"
    let ?r = "(case bd_cb d of Some c' \<Rightarrow> bk_chunkCb ?s1 c'
               | None \<Rightarrow> (?s1, [EmitError ''TypeError: data.cb is not a function'']))"
    have rd: "bk_block_phase (fst (bk_read s)) = bk_block_phase s"
      "bk_nBlocks (fst (bk_read s)) = bk_nBlocks (fst ?r)"
      "bk_jobs (fst (bk_read s)) = bk_jobs s" "bk_queue (fst (bk_read s)) = q"
      "count_list (snd (bk_read s)) (CallCb c) = count_list (snd ?r) (CallCb c)"
      using ex p' by (auto simp: bk_read_def Let_def split_beta bk_chunkCb_def split: option.splits)
    have o1: "bk_outstanding (fst (bk_read s)) c + (if bd_cb d = Some c then 1 else 0) = bk_outstanding s c"
      using rd(3,4) xs by (simp add: bk_outstanding_def)
    show ?thesis
    proof (cases "bd_cb d = Some c")
      case True
      then have "bk_nBlocks (fst ?r) c = bk_nBlocks s c - 1"
        "count_list (snd ?r) (CallCb c) = (if bk_nBlocks s c = 1 then 1 else 0)"
        by (simp_all add: bk_chunkCb_def Let_def)
      then show ?thesis using st pot o1 True rd unfolding bk_counts_def
        by (auto split: if_splits)
    next
      case False
      then have "bk_nBlocks (fst ?r) c = bk_nBlocks s c" "count_list (snd ?r) (CallCb c) = 0"
        by (auto simp: bk_chunkCb_def Let_def split: option.splits)
      then show ?thesis using st pot o1 False rd unfolding bk_counts_def
        by (auto split: if_splits)
    qed
  qed
qed

lemma filter_oq_insert:
  "length (filter P (oq_insert x xs)) = length (filter P xs) + (if P x then 1 else 0)"
  by (induction xs) auto

lemma take_job_filter:
  "take_job k js = Some (j, js') \<Longrightarrow>
   length (filter P js) = length (filter P js') + (if P j then 1 else 0)"
proof (induction js arbitrary: js')
  case Nil
  then show ?case by simp
next
  case (Cons a js)
  show ?case
  proof (cases "bc_index (fst a) = Num k")
    case True
    with Cons.prems show ?thesis by auto
  next
    case False
    with Cons.prems obtain r where r: "take_job k js = Some (j, r)" "js' = a # r"
      by (auto split: option.splits)
    from Cons.IH[OF r(1)] r(2) show ?thesis by auto
  qed
qed

lemma bk_blockCallback_counts:
  assumes st: "bk_block_phase s"
    and pot: "bk_nBlocks s c = int (bk_outstanding s c + k + (if bc_cb cl = Some c then 1 else 0))"
  shows "bk_counts c k (bk_outstanding s c + k + (if bc_cb cl = Some c then 1 else 0))
           (bk_blockCallback s cl res)"
proof (cases res)
  case (Inl err)
  let ?r = "(case bc_cb cl of Some cb \<Rightarrow> bk_chunkCb s cb | None \<Rightarrow> (s, []))"
  have e: "bk_blockCallback s cl res = (fst ?r, EmitError err # snd ?r)"
    using Inl by (simp add: bk_blockCallback_def split_beta)
  have o: "bk_outstanding (fst ?r) c = bk_outstanding s c"
    by (rule bk_outstanding_cong) (simp_all split: option.splits)
  have s': "bk_block_phase (fst ?r)" using st by (simp split: option.splits)
  show ?thesis
  proof (cases "bc_cb cl = Some c")
    case True
    then have "bk_nBlocks (fst ?r) c = bk_nBlocks s c - 1"
      "count_list (snd ?r) (CallCb c) = (if bk_nBlocks s c = 1 then 1 else 0)"
      by (simp_all add: bk_chunkCb_def Let_def)
    then show ?thesis unfolding e bk_counts_def using pot o s' True by (auto split: if_splits)
  next
    case False
    then have "bk_nBlocks (fst ?r) c = bk_nBlocks s c" "count_list (snd ?r) (CallCb c) = 0"
      by (auto simp: bk_chunkCb_def Let_def split: option.splits)
    then show ?thesis unfolding e bk_counts_def using pot o s' False by (auto split: if_splits)
  qed
next
  case (Inr d)
  let ?s2 = "s\<lparr> bk_queue := oq_push (bk_queue s)
                        \<lparr> bd_index = bc_index cl, bd_buf = d, bd_cb = bc_cb cl, bd_count = 0 \<rparr> \<rparr>"
  have e: "bk_blockCallback s cl res = (if bk_needPush ?s2 then bk_read ?s2 else (?s2, []))"
    using Inr by (simp add: bk_blockCallback_def Let_def)
  have o: "bk_outstanding ?s2 c = bk_outstanding s c + (if bc_cb cl = Some c then 1 else 0)"
    by (simp add: bk_outstanding_def oq_push_def filter_oq_insert)
  have st2: "bk_block_phase ?s2" using st by simp
  have pot2: "bk_nBlocks ?s2 c = int (bk_outstanding ?s2 c + k)" using pot o by simp
  have T: "bk_outstanding s c + k + (if bc_cb cl = Some c then 1 else 0) = bk_outstanding ?s2 c + k"
    using o by simp
  show ?thesis unfolding e T
    using bk_read_counts[OF st2 pot2] bk_counts_refl[OF st2 pot2] by simp
qed

lemma bk_complete_counts:
  assumes st: "bk_block_phase s" and pot: "bk_nBlocks s c = int (bk_outstanding s c + k)"
  shows "bk_counts c k (bk_outstanding s c + k) (bk_complete s j)"
proof (cases "take_job j (bk_jobs s)")
  case None
  then show ?thesis using bk_counts_refl[OF st pot] by (simp add: bk_complete_def split: option.split)
next
  case (Some r)
  then obtain cl b js where tj: "take_job j (bk_jobs s) = Some ((cl, b), js)" by (cases r) auto
  let ?s1 = "s\<lparr> bk_jobs := js \<rparr>"
  have o: "bk_outstanding s c = bk_outstanding ?s1 c + (if bc_cb cl = Some c then 1 else 0)"
    using take_job_filter[OF tj, of "\<lambda>j. bc_cb (fst j) = Some c"] by (simp add: bk_outstanding_def)
  have st1: "bk_block_phase ?s1" using st by simp
  have pot1: "bk_nBlocks ?s1 c = int (bk_outstanding ?s1 c + k + (if bc_cb cl = Some c then 1 else 0))"
    using pot o by simp
  have T: "bk_outstanding s c + k = bk_outstanding ?s1 c + k + (if bc_cb cl = Some c then 1 else 0)"
    using o by simp
  show ?thesis
  proof (cases "bk_decompress s")
    case None
    then show ?thesis using bk_counts_refl[OF st pot] by (simp add: bk_complete_def)
  next
    case (Some cd)
    then have "bk_complete s j = bk_blockCallback ?s1 cl (c_apply cd b)"
      using tj by (simp add: bk_complete_def)
    then show ?thesis unfolding T using bk_blockCallback_counts[OF st1 pot1] by simp
  qed
qed

lemma bk_finish_counts:
  assumes st: "bk_block_phase s" and pot: "bk_nBlocks s c = int (bk_outstanding s c + k)"
  shows "bk_counts c k (bk_outstanding s c + k) (bk_finish s)"
proof -
  let ?s = "s\<lparr> bk_finished := True \<rparr>"
  have a: "bk_block_phase ?s" "bk_nBlocks ?s c = int (bk_outstanding ?s c + k)"
    "bk_outstanding ?s c = bk_outstanding s c"
    using st pot by (simp_all add: bk_outstanding_def)
  show ?thesis using bk_read_counts[OF a(1,2)] bk_counts_refl[OF a(1,2)] a(3)
    by (simp add: bk_finish_def Let_def)
qed

lemma bk_dispatch_other:
  assumes st: "bk_block_phase s" and pot: "bk_nBlocks s c = int (bk_outstanding s c + k)" and ne: "cb \<noteq> c"
  shows "bk_counts c k (bk_outstanding s c + k) (bk_dispatch s blk cb)"
proof -
  obtain cd where cd: "bk_decompress s = Some cd" using st by auto
  from bk_dispatch_ex[OF cd, of blk cb] obtain i i' where d: "bk_dispatch s blk cb =
     (let cl = \<lparr> bc_index = i, bc_count = 0, bc_cb = Some cb \<rparr>;
          s2 = s\<lparr> bk_nBlocks := (bk_nBlocks s)(cb := bk_nBlocks s cb + 1), bk_index := i' \<rparr>
      in if c_sync cd
         then (fst (bk_blockCallback s2 cl (c_apply cd (b_data blk))),
               CallCodec (b_data blk) # snd (bk_blockCallback s2 cl (c_apply cd (b_data blk))))
         else (s2\<lparr> bk_jobs := bk_jobs s @ [(cl, b_data blk)] \<rparr>, [CallCodec (b_data blk)]))" by blast
  let ?cl = "\<lparr> bc_index = i, bc_count = 0, bc_cb = Some cb \<rparr>"
  let ?s2 = "s\<lparr> bk_nBlocks := (bk_nBlocks s)(cb := bk_nBlocks s cb + 1), bk_index := i' \<rparr>"
  have a: "bk_block_phase ?s2" "bk_outstanding ?s2 c = bk_outstanding s c"
    "bk_nBlocks ?s2 c = int (bk_outstanding ?s2 c + k + (if bc_cb ?cl = Some c then 1 else 0))"
    using st pot ne by (simp_all add: bk_outstanding_def)
  show ?thesis
  proof (cases "c_sync cd")
    case True
    then show ?thesis unfolding d
      using bk_blockCallback_counts[OF a(1,3), of "c_apply cd (b_data blk)"] a(2) ne
      by (simp add: Let_def bk_counts_def)
  next
    case False
    let ?s3 = "?s2\<lparr> bk_jobs := bk_jobs s @ [(?cl, b_data blk)] \<rparr>"
    have "bk_outstanding ?s3 c = bk_outstanding s c" using ne by (simp add: bk_outstanding_def)
    then have "bk_counts c k (bk_outstanding s c + k) (?s3, [CallCodec (b_data blk)])"
      using st pot ne by (auto simp: bk_counts_def)
    then show ?thesis unfolding d using False by (simp add: Let_def)
  qed
qed

lemma bk_dispatch_same:
  assumes st: "bk_block_phase s" and pot: "bk_nBlocks s c = int (bk_outstanding s c + k)" and k: "0 < k"
  shows "bk_block_phase (fst (bk_dispatch s blk c))
       \<and> bk_nBlocks (fst (bk_dispatch s blk c)) c = int (bk_outstanding (fst (bk_dispatch s blk c)) c + k)
       \<and> count_list (snd (bk_dispatch s blk c)) (CallCb c) = 0"
proof -
  obtain cd where cd: "bk_decompress s = Some cd" using st by auto
  from bk_dispatch_ex[OF cd, of blk c] obtain i i' where d: "bk_dispatch s blk c =
     (let cl = \<lparr> bc_index = i, bc_count = 0, bc_cb = Some c \<rparr>;
          s2 = s\<lparr> bk_nBlocks := (bk_nBlocks s)(c := bk_nBlocks s c + 1), bk_index := i' \<rparr>
      in if c_sync cd
         then (fst (bk_blockCallback s2 cl (c_apply cd (b_data blk))),
               CallCodec (b_data blk) # snd (bk_blockCallback s2 cl (c_apply cd (b_data blk))))
         else (s2\<lparr> bk_jobs := bk_jobs s @ [(cl, b_data blk)] \<rparr>, [CallCodec (b_data blk)]))" by blast
  let ?cl = "\<lparr> bc_index = i, bc_count = 0, bc_cb = Some c \<rparr>"
  let ?s2 = "s\<lparr> bk_nBlocks := (bk_nBlocks s)(c := bk_nBlocks s c + 1), bk_index := i' \<rparr>"
  have a: "bk_block_phase ?s2" "bk_outstanding ?s2 c = bk_outstanding s c"
    "bk_nBlocks ?s2 c = int (bk_outstanding ?s2 c + k + (if bc_cb ?cl = Some c then 1 else 0))"
    using st pot by (simp_all add: bk_outstanding_def)
  show ?thesis
  proof (cases "c_sync cd")
    case True
    then show ?thesis unfolding d
      using bk_blockCallback_counts[OF a(1,3), of "c_apply cd (b_data blk)"] k
      by (auto simp: bk_counts_def Let_def)
  next
    case False
    let ?s3 = "?s2\<lparr> bk_jobs := bk_jobs s @ [(?cl, b_data blk)] \<rparr>"
    have "bk_outstanding ?s3 c = bk_outstanding s c + 1" by (simp add: bk_outstanding_def)
    then show ?thesis unfolding d using False st pot by (simp add: Let_def)
  qed
qed

lemma bk_loop_other:
  assumes "bk_block_phase s" and "bk_nBlocks s c = int (bk_outstanding s c + k)" and "cb \<noteq> c"
  shows "bk_counts c k (bk_outstanding s c + k) (fst (bk_loop s t cb), fst (snd (bk_loop s t cb)))"
  using assms
proof (induction s t cb rule: bk_loop.induct)
  case (1 s t cb)
  obtain ob t1 where tr: "tryReadBlock t = (ob, t1)" by (cases "tryReadBlock t")
  have base: "bk_counts c k (bk_outstanding s c + k) (s\<lparr> bk_tap := t1 \<rparr>, ev)" if "count_list ev (CallCb c) = 0" for ev
    using "1.prems" that by (auto simp: bk_counts_def bk_outstanding_def)
  show ?case
  proof (cases ob)
    case None
    then show ?thesis using tr base[of "[]"] by (subst (1 2) bk_loop_unfold) simp
  next
    case (Some blk)
    show ?thesis
    proof (cases "bk_syncMarker s \<noteq> Some (b_sync blk)")
      case True
      then show ?thesis using tr Some base[of "[EmitError ''invalid sync marker'']"]
        by (subst (1 2) bk_loop_unfold) simp
    next
      case False
      obtain s3 ev where d: "bk_dispatch s blk cb = (s3, ev)" by (cases "bk_dispatch s blk cb")
      have c1: "bk_counts c k (bk_outstanding s c + k) (s3, ev)"
        using bk_dispatch_other[OF "1.prems", of blk] d by simp
      then have p3: "bk_block_phase s3" "bk_nBlocks s3 c = int (bk_outstanding s3 c + k)"
        by (simp_all add: bk_counts_def)
      obtain cl s2 where cc: "bk_createBlockCallback (s\<lparr> bk_nBlocks := (bk_nBlocks s)(cb := bk_nBlocks s cb + 1) \<rparr>) cb = (cl, s2)"
        by (cases "bk_createBlockCallback (s\<lparr> bk_nBlocks := (bk_nBlocks s)(cb := bk_nBlocks s cb + 1) \<rparr>) cb")
      have dd: "bk_call_decompress s2 (b_data blk) cl = (s3, ev)"
        using d cc by (simp add: bk_dispatch_def Let_def)
      have ih: "bk_counts c k (bk_outstanding s3 c + k) (fst (bk_loop s3 t1 cb), fst (snd (bk_loop s3 t1 cb)))"
        by (rule "1.IH"[OF tr[symmetric] Some False refl refl cc[symmetric] refl dd[symmetric] p3 "1.prems"(3)])
      have "bk_loop s t cb = (fst (bk_loop s3 t1 cb), ev @ fst (snd (bk_loop s3 t1 cb)), snd (snd (bk_loop s3 t1 cb)))"
        using tr Some False d by (subst bk_loop_unfold) (simp add: split_beta)
      then show ?thesis using bk_counts_trans[OF c1 ih] by simp
    qed
  qed
qed

lemma bk_loop_same:
  assumes "bk_block_phase s" and "bk_nBlocks s c = int (bk_outstanding s c + k)" and "0 < k"
  shows "bk_block_phase (fst (bk_loop s t c))
       \<and> bk_nBlocks (fst (bk_loop s t c)) c = int (bk_outstanding (fst (bk_loop s t c)) c + k)
       \<and> count_list (fst (snd (bk_loop s t c))) (CallCb c) = 0"
  using assms
proof (induction s t c rule: bk_loop.induct)
  case (1 s t c)
  obtain ob t1 where tr: "tryReadBlock t = (ob, t1)" by (cases "tryReadBlock t")
  have base: "bk_block_phase (s\<lparr> bk_tap := t1 \<rparr>)
      \<and> bk_nBlocks (s\<lparr> bk_tap := t1 \<rparr>) c = int (bk_outstanding (s\<lparr> bk_tap := t1 \<rparr>) c + k)"
    using "1.prems" by (simp add: bk_outstanding_def)
  show ?case
  proof (cases ob)
    case None
    then show ?thesis using tr base by (subst (1 2 3 4) bk_loop_unfold) simp
  next
    case (Some blk)
    show ?thesis
    proof (cases "bk_syncMarker s \<noteq> Some (b_sync blk)")
      case True
      then show ?thesis using tr Some base by (subst (1 2 3 4) bk_loop_unfold) simp
    next
      case False
      obtain s3 ev where d: "bk_dispatch s blk c = (s3, ev)" by (cases "bk_dispatch s blk c")
      have p3: "bk_block_phase s3" "bk_nBlocks s3 c = int (bk_outstanding s3 c + k)"
        "count_list ev (CallCb c) = 0"
        using bk_dispatch_same[OF "1.prems", of blk] d by simp_all
      obtain cl s2 where cc: "bk_createBlockCallback (s\<lparr> bk_nBlocks := (bk_nBlocks s)(c := bk_nBlocks s c + 1) \<rparr>) c = (cl, s2)"
        by (cases "bk_createBlockCallback (s\<lparr> bk_nBlocks := (bk_nBlocks s)(c := bk_nBlocks s c + 1) \<rparr>) c")
      have dd: "bk_call_decompress s2 (b_data blk) cl = (s3, ev)"
        using d cc by (simp add: bk_dispatch_def Let_def)
      note ih = "1.IH"[OF tr[symmetric] Some False refl refl cc[symmetric] refl dd[symmetric] p3(1,2) "1.prems"(3)]
      have "bk_loop s t c = (fst (bk_loop s3 t1 c), ev @ fst (snd (bk_loop s3 t1 c)), snd (snd (bk_loop s3 t1 c)))"
        using tr Some False d by (subst bk_loop_unfold) (simp add: split_beta)
      then show ?thesis using ih p3(3) by simp
    qed
  qed
qed

lemma bk_writeChunk_other:
  assumes st: "bk_block_phase s" and pot: "bk_nBlocks s c = int (bk_outstanding s c + k)" and ne: "cb \<noteq> c"
  shows "bk_counts c k (bk_outstanding s c + k) (bk_writeChunk s chunk cb)"
proof -
  let ?t = "\<lparr> buf = drop (pos (bk_tap s)) (buf (bk_tap s)) @ chunk, pos = 0 \<rparr>"
  let ?s1 = "s\<lparr> bk_tap := ?t, bk_nBlocks := (bk_nBlocks s)(cb := 1) \<rparr>"
  have a: "bk_block_phase ?s1" "bk_nBlocks ?s1 c = int (bk_outstanding ?s1 c + k)"
    "bk_outstanding ?s1 c = bk_outstanding s c"
    using st pot ne by (simp_all add: bk_outstanding_def)
  let ?l = "bk_chunk_loop s chunk cb"
  have l: "bk_counts c k (bk_outstanding s c + k) (fst ?l, fst (snd ?l))"
    using bk_loop_other[OF a(1,2) ne, of ?t] a(3) by (simp add: bk_chunk_loop_def Let_def)
  have cbk: "bk_counts c k (bk_outstanding (fst ?l) c + k) (bk_chunkCb (fst ?l) cb)"
    using l ne by (auto simp: bk_counts_def bk_chunkCb_def Let_def bk_outstanding_def)
  show ?thesis
  proof (cases "snd (snd ?l)")
    case False
    then show ?thesis using l by (simp add: bk_writeChunk_eq)
  next
    case True
    have "bk_counts c k (bk_outstanding s c + k)
        (fst (bk_chunkCb (fst ?l) cb), fst (snd ?l) @ snd (bk_chunkCb (fst ?l) cb))"
      using bk_counts_trans[OF l, of "fst (bk_chunkCb (fst ?l) cb)" "snd (bk_chunkCb (fst ?l) cb)"] cbk
      by simp
    then show ?thesis using True by (simp add: bk_writeChunk_eq)
  qed
qed

lemma bk_run_counts:
  assumes "bk_block_phase s" and "bk_nBlocks s c = int (bk_outstanding s c + k)"
    and "\<forall>a\<in>set acts. \<not> writes c a"
  shows "bk_counts c k (bk_outstanding s c + k) (bk_run ct s acts)"
  using assms
proof (induction acts arbitrary: s)
  case Nil
  then show ?case using bk_counts_refl by simp
next
  case (Cons a acts)
  obtain s1 ev1 where st: "bk_step ct s a = (s1, ev1)" by (cases "bk_step ct s a")
  obtain s2 ev2 where rn: "bk_run ct s1 acts = (s2, ev2)" by (cases "bk_run ct s1 acts")
  have "bk_counts c k (bk_outstanding s c + k) (bk_step ct s a)"
  proof (cases a)
    case (BWrite chunk cb)
    then have "cb \<noteq> c" using Cons.prems(3) by auto
    from bk_writeChunk_other[OF Cons.prems(1,2) this] show ?thesis
      using BWrite Cons.prems(1) by (simp add: bk_write_def)
  next
    case BRead
    then show ?thesis using bk_read_counts[OF Cons.prems(1,2)] by simp
  next
    case BFinish
    then show ?thesis using bk_finish_counts[OF Cons.prems(1,2)] by simp
  next
    case (BComplete j)
    then show ?thesis using bk_complete_counts[OF Cons.prems(1,2)] by simp
  qed
  then have k1: "bk_counts c k (bk_outstanding s c + k) (s1, ev1)" unfolding st .
  then have "bk_block_phase s1" "bk_nBlocks s1 c = int (bk_outstanding s1 c + k)"
    by (simp_all add: bk_counts_def)
  from Cons.IH[OF this] Cons.prems(3) rn have "bk_counts c k (bk_outstanding s1 c + k) (s2, ev2)" by simp
  from bk_counts_trans[OF k1 this] show ?case using st rn by simp
qed

text \<open>Claim C5, as the code has it. A chunk is written in the block phase under a callback
  \<open>c\<close> no block refers to yet, and anything but another write under \<open>c\<close> follows. The
  callback is not invoked while the loop over the readable blocks runs. If the loop runs to
  its end, the callback has been invoked exactly once as soon as no block dispatched from
  the chunk is in flight or queued any more, and not at all before; a chunk from which no
  block can be read gets its callback at the end of the write. If the loop is left because
  of a wrong sync marker, the callback is never invoked.\<close>

theorem BlockDecoder_chunk_callback:
  assumes "bk_block_phase s" and "bk_outstanding s c = 0" and "\<forall>a\<in>set acts. \<not> writes c a"
  shows "count_list (fst (snd (bk_chunk_loop s chunk c))) (CallCb c) = 0
       \<and> (snd (snd (bk_chunk_loop s chunk c)) \<longrightarrow>
            count_list (snd (bk_write ct s chunk c) @ snd (bk_run ct (fst (bk_write ct s chunk c)) acts)) (CallCb c)
              = (if bk_outstanding (fst (bk_run ct (fst (bk_write ct s chunk c)) acts)) c = 0 then 1 else 0))
       \<and> (fst (tryReadBlock \<lparr> buf = drop (pos (bk_tap s)) (buf (bk_tap s)) @ chunk, pos = 0 \<rparr>) = None \<longrightarrow>
            snd (bk_write ct s chunk c) = [CallCb c])
       \<and> (\<not> snd (snd (bk_chunk_loop s chunk c)) \<longrightarrow>
            count_list (snd (bk_write ct s chunk c) @ snd (bk_run ct (fst (bk_write ct s chunk c)) acts)) (CallCb c) = 0)"
proof -
  let ?t = "\<lparr> buf = drop (pos (bk_tap s)) (buf (bk_tap s)) @ chunk, pos = 0 \<rparr>"
  let ?s1 = "s\<lparr> bk_tap := ?t, bk_nBlocks := (bk_nBlocks s)(c := 1) \<rparr>"
  let ?l = "bk_chunk_loop s chunk c"
  let ?w = "bk_write ct s chunk c"
  let ?r = "bk_run ct (fst ?w) acts"
  have w: "?w = bk_writeChunk s chunk c" using assms(1) by (simp add: bk_write_def)
  have a: "bk_block_phase ?s1" "bk_nBlocks ?s1 c = int (bk_outstanding ?s1 c + 1)"
    using assms(1,2) by (simp_all add: bk_outstanding_def)
  have l: "bk_block_phase (fst ?l)" "bk_nBlocks (fst ?l) c = int (bk_outstanding (fst ?l) c + 1)"
    "count_list (fst (snd ?l)) (CallCb c) = 0"
    using bk_loop_same[OF a, of ?t] by (simp_all add: bk_chunk_loop_def Let_def)
  have ok: "count_list (snd ?w @ snd ?r) (CallCb c) = (if bk_outstanding (fst ?r) c = 0 then 1 else 0)"
    if ok: "snd (snd ?l)"
  proof -
    have we: "?w = (fst (bk_chunkCb (fst ?l) c), fst (snd ?l) @ snd (bk_chunkCb (fst ?l) c))"
      using ok by (simp add: w bk_writeChunk_eq)
    have o: "bk_outstanding (fst ?w) c = bk_outstanding (fst ?l) c"
      unfolding we by (simp add: bk_outstanding_def)
    have p: "bk_block_phase (fst ?w)" "bk_nBlocks (fst ?w) c = int (bk_outstanding (fst ?w) c + 0)"
      using l(1,2) o unfolding we by simp_all
    have cw: "count_list (snd ?w) (CallCb c) = (if bk_outstanding (fst ?w) c = 0 then 1 else 0)"
      using l(2,3) o unfolding we by (simp add: bk_chunkCb_events)
    from bk_run_counts[OF p assms(3), of ct]
    have "bk_outstanding (fst ?r) c \<le> bk_outstanding (fst ?w) c"
      "count_list (snd ?r) (CallCb c)
         = (if 0 < bk_outstanding (fst ?w) c \<and> bk_outstanding (fst ?r) c = 0 then 1 else 0)"
      by (simp_all add: bk_counts_def)
    then show ?thesis using cw by auto
  qed
  have bad: "count_list (snd ?w @ snd ?r) (CallCb c) = 0" if nok: "\<not> snd (snd ?l)"
  proof -
    have we: "?w = (fst ?l, fst (snd ?l))" using nok by (simp add: w bk_writeChunk_eq)
    have p: "bk_block_phase (fst ?w)" "bk_nBlocks (fst ?w) c = int (bk_outstanding (fst ?w) c + 1)"
      using l(1,2) unfolding we by simp_all
    from bk_run_counts[OF p assms(3), of ct]
    have "count_list (snd ?r) (CallCb c) = 0" by (simp add: bk_counts_def)
    then show ?thesis using l(3) unfolding we by simp
  qed
  have none: "snd ?w = [CallCb c]" if tn: "fst (tryReadBlock ?t) = None"
  proof -
    obtain t1 where "tryReadBlock ?t = (None, t1)" using tn by (cases "tryReadBlock ?t") auto
    then have "bk_chunk_loop s chunk c = (?s1\<lparr> bk_tap := t1 \<rparr>, [], True)"
      unfolding bk_chunk_loop_def Let_def by (subst bk_loop_unfold) simp
    then show ?thesis by (simp add: w bk_writeChunk_eq bk_chunkCb_def Let_def)
  qed
  show ?thesis using l(3) ok bad none by blast
qed

text \<open>Claim C5, as stated, fails: the second block of this chunk has a wrong sync marker, the
  loop is left by \<open>return\<close> before the final \<open>chunkCb()\<close>, and the callback of the chunk is
  never invoked, whatever is read afterwards.\<close>

theorem BlockDecoder_chunk_callback_counterexample:
  "count_list (snd (bk_run long_parser bk_after_header
      [BWrite (block_with [1, 2] (replicate 16 0) @ block_with [3] (replicate 16 1)) 1,
       BRead, BRead, BRead, BFinish])) (CallCb 1) = 0"
  by code_simp

lemma bk_after_header_fields:
  "(case bk_after_header of s \<Rightarrow>
      (bk_started s, (case bk_decompress s of None \<Rightarrow> False | Some _ \<Rightarrow> True), bk_outstanding s 1,
       snd (snd (bk_chunk_loop s two_blocks_chunk 1)),
       bk_outstanding (fst (bk_run long_parser (fst (bk_write long_parser s two_blocks_chunk 1)) [BRead, BRead])) 1))
   = (True, True, 0, True, 0)"
  by code_simp

text \<open>A chunk of two blocks written after the header: the callback of the chunk has been
  invoked exactly once when both blocks have been consumed.\<close>

theorem BlockDecoder_chunk_callback_witness:
  "bk_block_phase bk_after_header \<and> bk_outstanding bk_after_header 1 = 0
   \<and> snd (snd (bk_chunk_loop bk_after_header two_blocks_chunk 1))
   \<and> count_list (snd (bk_write long_parser bk_after_header two_blocks_chunk 1)
        @ snd (bk_run long_parser (fst (bk_write long_parser bk_after_header two_blocks_chunk 1)) [BRead, BRead]))
       (CallCb 1) = 1"
proof -
  from bk_after_header_fields have f: "bk_block_phase bk_after_header" "bk_outstanding bk_after_header 1 = 0"
    "snd (snd (bk_chunk_loop bk_after_header two_blocks_chunk 1))"
    "bk_outstanding (fst (bk_run long_parser (fst (bk_write long_parser bk_after_header two_blocks_chunk 1)) [BRead, BRead])) 1 = 0"
    by (auto split: option.splits)
  have h: "\<forall>a\<in>set [BRead, BRead]. \<not> writes 1 a" by simp
  from BlockDecoder_chunk_callback[OF f(1,2) h, of two_blocks_chunk long_parser] f(3,4)
  have "count_list (snd (bk_write long_parser bk_after_header two_blocks_chunk 1)
        @ snd (bk_run long_parser (fst (bk_write long_parser bk_after_header two_blocks_chunk 1)) [BRead, BRead]))
       (CallCb 1) = 1" by simp
  then show ?thesis using f by blast
qed

section \<open>Two blocks completing out of order\<close>

lemma out_of_order_run_result:
  "(case bk_run long_parser (BlockDecoder True default_codecs) out_of_order_run of
      (s, ev) \<Rightarrow> (pushed ev, bk_drained s)) = ([Decoded 1, Decoded 2, Decoded 3], True)"
  by code_simp

lemma in_order_run_result:
  "(case bk_run long_parser (BlockDecoder True default_codecs) in_order_run of
      (s, ev) \<Rightarrow> (pushed ev, bk_drained s)) = ([Decoded 1, Decoded 2, Decoded 3], True)"
  by code_simp

text \<open>Two blocks whose decompressions complete second block first: the records of the first
  block are pushed before the record of the second, as in the reference sequence and as in
  the run in which they complete in the order of submission.\<close>

theorem BlockDecoder_order_preserved_witness:
  "bk_drained (fst (bk_run long_parser (BlockDecoder True default_codecs) out_of_order_run))
   \<and> bk_drained (fst (bk_run long_parser (BlockDecoder True default_codecs) in_order_run))
   \<and> filter is_write in_order_run = filter is_write out_of_order_run
   \<and> pushed (snd (bk_run long_parser (BlockDecoder True default_codecs) out_of_order_run))
       = [Decoded 1, Decoded 2, Decoded 3]
   \<and> in_order_reads (bk_reader (fst (bk_run long_parser (BlockDecoder True default_codecs) out_of_order_run)))
        (bk_submitted (fst (bk_run long_parser (BlockDecoder True default_codecs) out_of_order_run))
           (snd (bk_run long_parser (BlockDecoder True default_codecs) out_of_order_run)))
        3 \<lparr> buf = [], pos = 0 \<rparr> 0
       = [Decoded 1, Decoded 2, Decoded 3]
   \<and> pushed (snd (bk_run long_parser (BlockDecoder True default_codecs) in_order_run))
       = pushed (snd (bk_run long_parser (BlockDecoder True default_codecs) out_of_order_run))"
proof -
  let ?r = "bk_run long_parser (BlockDecoder True default_codecs) out_of_order_run"
  let ?r' = "bk_run long_parser (BlockDecoder True default_codecs) in_order_run"
  from out_of_order_run_result have o: "pushed (snd ?r) = [Decoded 1, Decoded 2, Decoded 3]"
    "bk_drained (fst ?r)" by (simp_all add: split_beta)
  from in_order_run_result have i: "bk_drained (fst ?r')" by (simp add: split_beta)
  have w: "filter is_write in_order_run = filter is_write out_of_order_run"
    by (simp add: in_order_run_def out_of_order_run_def)
  note T = BlockDecoder_order_preserved[of long_parser True default_codecs out_of_order_run, unfolded Let_def]
  from T have "pushed (snd ?r) = in_order_reads (bk_reader (fst ?r)) (bk_submitted (fst ?r) (snd ?r))
      (length (pushed (snd ?r))) \<lparr> buf = [], pos = 0 \<rparr> 0" by blast
  then have a: "in_order_reads (bk_reader (fst ?r)) (bk_submitted (fst ?r) (snd ?r)) 3 \<lparr> buf = [], pos = 0 \<rparr> 0
      = [Decoded 1, Decoded 2, Decoded 3]"
    unfolding o(1) by (simp add: eval_nat_numeral del: in_order_reads.simps)
  from T o(2) w i have b: "pushed (snd ?r') = pushed (snd ?r)" by blast
  show ?thesis using o i w a b by simp
qed

section \<open>Properties of BlockDecoder: the header\<close>

text \<open>Claim C7 fails on the code. \<open>_decodeHeader\<close> returns nothing after the error, which
  \<open>_write\<close> takes for "wait for more data": it invokes the write callback and stays in the
  header phase, so the next chunk makes it decode the same header and emit the same error
  again. With the header \<open>Obj\\x02\<close>, an empty map and a sync marker in one chunk and one
  more byte in a second chunk the error is emitted twice; the same bytes in a single chunk
  give it once. No record is pushed either way.\<close>

theorem BlockDecoder_bad_magic_twice:
  "errors (snd (bk_run long_parser (BlockDecoder True default_codecs)
       [BWrite (bytes_of ''Obj'' @ [2] @ replicate 17 0) 0, BWrite [0] 1, BFinish, BRead]))
     = [''invalid magic bytes'', ''invalid magic bytes'']
   \<and> errors (snd (bk_run long_parser (BlockDecoder True default_codecs)
       [BWrite (bytes_of ''Obj'' @ [2] @ replicate 17 0 @ [0]) 0, BFinish, BRead]))
     = [''invalid magic bytes'']
   \<and> pushed (snd (bk_run long_parser (BlockDecoder True default_codecs)
       [BWrite (bytes_of ''Obj'' @ [2] @ replicate 17 0) 0, BWrite [0] 1, BFinish, BRead])) = []"
  by code_simp

text \<open>Claim C8 fails on the code in the same way. The codec name is taken from
  \<open>avro.codec\<close> (\<open>null\<close> when the key is absent) and an unknown name gives the error
  \<open>unknown codec: snappy\<close> and no record; but a chunk written after the one that completed
  the header makes the decoder emit the error a second time.\<close>

theorem BlockDecoder_unknown_codec_twice:
  "errors (snd (bk_run long_parser (BlockDecoder True default_codecs)
       [BWrite (header_with MAGIC_BYTES ''snappy'') 0, BWrite [0] 1, BFinish, BRead]))
     = [''unknown codec: snappy'', ''unknown codec: snappy'']
   \<and> errors (snd (bk_run long_parser (BlockDecoder True default_codecs)
       [BWrite (header_with MAGIC_BYTES ''snappy'') 0, BFinish, BRead]))
     = [''unknown codec: snappy'']
   \<and> pushed (snd (bk_run long_parser (BlockDecoder True default_codecs)
       [BWrite (header_with MAGIC_BYTES ''snappy'') 0, BWrite [0] 1, BFinish, BRead])) = []
   \<and> snd (bk_run long_parser (BlockDecoder True default_codecs)
       [BWrite (header_toBuffer \<lparr> h_magic = MAGIC_BYTES,
                 h_meta = [(''avro.schema'', bytes_of ''\"long\"'')], h_sync = replicate 16 0 \<rparr>) 0])
     = [EmitMetadata ''null'', CallCb 0]"
  by code_simp

end
